theory Spec2Isabelle
  imports Complex_Main
begin

section \<open>Regular expressions of the rule table\<close>

text \<open>
  The rules of \<^verbatim>\<open>messageReplace\<close> are Go regular expressions. Go strings are byte
  sequences, and every literal and class of the table is ASCII, so a pattern is matched
  byte by byte: a byte of a multi-byte rune is at least 0x80 and belongs to no class of
  the table. A class is a list of inclusive byte ranges.
\<close>

definition byte_in :: "char \<Rightarrow> char \<Rightarrow> char \<Rightarrow> bool" where
  "byte_in lo hi c = ((of_char lo :: nat) \<le> of_char c \<and> (of_char c :: nat) \<le> of_char hi)"

primrec in_class :: "(char \<times> char) list \<Rightarrow> char \<Rightarrow> bool" where
  "in_class [] c = False"
| "in_class (r # rs) c = (byte_in (fst r) (snd r) c \<or> in_class rs c)"

text \<open>
  The syntax tree of a parsed pattern. \<open>Bol\<close> is \<^verbatim>\<open>^\<close> (no multi-line flag: the
  beginning of the text only), \<open>Opt\<close> is the greedy \<^verbatim>\<open>?\<close>, \<open>Plus\<close> the greedy
  \<^verbatim>\<open>+\<close>, \<open>Times n\<close> the counted repetition \<^verbatim>\<open>{n}\<close>, and \<open>Group i name\<close> the
  i-th capturing group (\<open>name\<close> is empty for an unnamed group).
\<close>

datatype regexp =
    Eps
  | Lit char
  | Class "(char \<times> char) list"
  | Bol
  | Seq regexp regexp
  | Opt regexp
  | Plus regexp
  | Times nat regexp
  | Group nat string regexp

text \<open>
  A thread of the matcher is the current position and the spans captured so far.
  \<open>run re s t\<close> lists the threads that leave \<open>re\<close> when thread \<open>t\<close> enters it on
  text \<open>s\<close>, in the order a backtracking search would try them: Go's leftmost-first
  semantics picks the head of this list.
\<close>

type_synonym caps = "nat \<rightharpoonup> nat \<times> nat"
type_synonym thread = "nat \<times> caps"

primrec repeat_n :: "nat \<Rightarrow> (thread \<Rightarrow> thread list) \<Rightarrow> thread \<Rightarrow> thread list" where
  "repeat_n 0 f t = [t]"
| "repeat_n (Suc n) f t = concat (map (repeat_n n f) (f t))"

text \<open>
  Greedy iteration, one or more times: after each pass, first the threads that go round
  again, then the thread that stops. Every pass of the table's patterns consumes a
  byte, so the budget of one more than the bytes left is never used up.
\<close>

primrec greedy_plus :: "nat \<Rightarrow> (thread \<Rightarrow> thread list) \<Rightarrow> thread \<Rightarrow> thread list" where
  "greedy_plus 0 f t = []"
| "greedy_plus (Suc n) f t = concat (map (\<lambda>t'. greedy_plus n f t' @ [t']) (f t))"

primrec run :: "regexp \<Rightarrow> string \<Rightarrow> thread \<Rightarrow> thread list" where
  "run Eps s t = [t]"
| "run (Lit c) s t =
     (if fst t < length s \<and> s ! fst t = c then [(Suc (fst t), snd t)] else [])"
| "run (Class rs) s t =
     (if fst t < length s \<and> in_class rs (s ! fst t) then [(Suc (fst t), snd t)] else [])"
| "run Bol s t = (if fst t = 0 then [t] else [])"
| "run (Seq a b) s t = concat (map (run b s) (run a s t))"
| "run (Opt a) s t = run a s t @ [t]"
| "run (Plus a) s t = greedy_plus (Suc (length s - fst t)) (run a s) t"
| "run (Times n a) s t = repeat_n n (run a s) t"
| "run (Group i name a) s t =
     map (\<lambda>t'. (fst t', (snd t')(i \<mapsto> (fst t, fst t')))) (run a s t)"

text \<open>Positions only grow: a thread never leaves a pattern before the place it entered.\<close>

lemma repeat_n_mono:
  assumes "\<And>t t'. t' \<in> set (f t) \<Longrightarrow> fst t \<le> fst t'"
  shows "t' \<in> set (repeat_n n f t) \<Longrightarrow> fst t \<le> fst t'"
proof (induction n arbitrary: t)
  case 0
  then show ?case by simp
next
  case (Suc n)
  then obtain u where "u \<in> set (f t)" "t' \<in> set (repeat_n n f u)" by auto
  with Suc.IH assms show ?case by (meson le_trans)
qed

lemma greedy_plus_mono:
  assumes "\<And>t t'. t' \<in> set (f t) \<Longrightarrow> fst t \<le> fst t'"
  shows "t' \<in> set (greedy_plus n f t) \<Longrightarrow> fst t \<le> fst t'"
proof (induction n arbitrary: t)
  case 0
  then show ?case by simp
next
  case (Suc n)
  then obtain u where u: "u \<in> set (f t)" "t' \<in> set (greedy_plus n f u) \<or> t' = u" by auto
  with Suc.IH assms show ?case by (meson le_trans)
qed

lemma run_mono: "t' \<in> set (run re s t) \<Longrightarrow> fst t \<le> fst t'"
proof (induction re arbitrary: t t')
  case (Seq a b)
  then obtain u where "u \<in> set (run a s t)" "t' \<in> set (run b s u)" by auto
  with Seq.IH show ?case by (meson le_trans)
next
  case (Plus a)
  have "t' \<in> set (greedy_plus (Suc (length s - fst t)) (run a s) t)"
    using Plus.prems by simp
  then show ?case by (rule greedy_plus_mono [rotated]) (rule Plus.IH)
next
  case (Times n a)
  have "t' \<in> set (repeat_n n (run a s) t)"
    using Times.prems by simp
  then show ?case by (rule repeat_n_mono [rotated]) (rule Times.IH)
qed (auto split: if_splits)

text \<open>
  The unanchored search of \<^verbatim>\<open>doExecute\<close>: the first start position, from \<open>p\<close> on,
  where the pattern matches, with the end and the captures of the preferred match there.
\<close>

function search :: "regexp \<Rightarrow> string \<Rightarrow> nat \<Rightarrow> (nat \<times> nat \<times> caps) option" where
  "search re s p =
     (if length s < p then None
      else case run re s (p, Map.empty) of
             [] \<Rightarrow> search re s (Suc p)
           | t # _ \<Rightarrow> Some (p, fst t, snd t))"
  by pat_completeness auto
termination
  by (relation "measure (\<lambda>(re, s, p). Suc (length s) - p)") auto

declare search.simps [simp del]

lemma search_bounds:
  "search re s p = Some (a0, a1, cs) \<Longrightarrow> p \<le> a0 \<and> a0 \<le> a1 \<and> a0 \<le> length s"
proof (induction re s p rule: search.induct)
  case (1 re s p)
  show ?case
  proof (cases "run re s (p, Map.empty)")
    case Nil
    with "1.prems" have "\<not> length s < p" and "search re s (Suc p) = Some (a0, a1, cs)"
      by (auto simp: search.simps [of re s p] split: if_splits)
    with "1.IH" Nil show ?thesis by fastforce
  next
    case (Cons t ts)
    then have "t \<in> set (run re s (p, Map.empty))" by simp
    then have "p \<le> fst t" using run_mono by fastforce
    with "1.prems" Cons show ?thesis
      by (auto simp: search.simps [of re s p] split: if_splits)
  qed
qed

text \<open>
  \<^verbatim>\<open>FindStringSubmatch\<close>: the leftmost match and the text of each group, the whole
  match at index 0; a group that took no part in the match gives the empty string; no
  match gives \<open>None\<close> (Go's nil slice). \<^verbatim>\<open>SubexpNames\<close>: the names of the groups,
  the empty name at index 0 for the whole match.
\<close>

primrec groups :: "regexp \<Rightarrow> (nat \<times> string) list" where
  "groups Eps = []"
| "groups (Lit c) = []"
| "groups (Class rs) = []"
| "groups Bol = []"
| "groups (Seq a b) = groups a @ groups b"
| "groups (Opt a) = groups a"
| "groups (Plus a) = groups a"
| "groups (Times n a) = groups a"
| "groups (Group i name a) = (i, name) # groups a"

definition SubexpNames :: "regexp \<Rightarrow> string list" where
  "SubexpNames re = [] # map snd (groups re)"

definition submatch :: "string \<Rightarrow> caps \<Rightarrow> nat \<Rightarrow> string" where
  "submatch s cs i = (case cs i of None \<Rightarrow> [] | Some (b, e) \<Rightarrow> take (e - b) (drop b s))"

definition FindStringSubmatch :: "regexp \<Rightarrow> string \<Rightarrow> string list option" where
  "FindStringSubmatch re s =
     (case search re s 0 of
        None \<Rightarrow> None
      | Some (a0, a1, cs) \<Rightarrow>
          Some (map (submatch s (cs(0 \<mapsto> (a0, a1)))) [0..<length (SubexpNames re)]))"

text \<open>
  \<^verbatim>\<open>FindStringIndex\<close>, the span of the leftmost match. The program does not call
  it; the theorems name the matched span by it.
\<close>

definition FindStringIndex :: "regexp \<Rightarrow> string \<Rightarrow> (nat \<times> nat) option" where
  "FindStringIndex re s = map_option (\<lambda>r. (fst r, fst (snd r))) (search re s 0)"

text \<open>A pattern that opens with \<^verbatim>\<open>^\<close> matches at the beginning of the text only.\<close>

fun anchored :: "regexp \<Rightarrow> bool" where
  "anchored Bol = True"
| "anchored (Seq a b) = anchored a"
| "anchored (Group i name a) = anchored a"
| "anchored re = False"

text \<open>
  \<^verbatim>\<open>ReplaceAllString\<close> with a replacement text free of \<^verbatim>\<open>$\<close>: the loop of Go's
  \<^verbatim>\<open>replaceAll\<close>. \<open>advance\<close> is its step to the next search position, \<open>width\<close> the
  width of the rune at the search position: 0 at the end of the text and 1 for a byte.
  A wider rune would only count after an empty match, and every rule of the table
  matches at least one byte.
\<close>

definition advance :: "nat \<Rightarrow> nat \<Rightarrow> nat \<Rightarrow> nat" where
  "advance searchPos width a1 =
     (if a1 < searchPos + width then searchPos + width
      else if a1 < searchPos + 1 then searchPos + 1
      else a1)"

function replaceAll :: "regexp \<Rightarrow> string \<Rightarrow> string \<Rightarrow> nat \<Rightarrow> nat \<Rightarrow> string" where
  "replaceAll re src repl lastMatchEnd searchPos =
     (if length src < searchPos then drop lastMatchEnd src
      else case search re src searchPos of
             None \<Rightarrow> drop lastMatchEnd src
           | Some (a0, a1, cs) \<Rightarrow>
               take (a0 - lastMatchEnd) (drop lastMatchEnd src)
               @ (if lastMatchEnd < a1 \<or> a0 = 0 then repl else [])
               @ replaceAll re src repl a1
                   (advance searchPos (if searchPos < length src then 1 else 0) a1))"
  by pat_completeness auto
termination
proof (relation "measure (\<lambda>(re, src, repl, lastMatchEnd, searchPos). Suc (length src) - searchPos)")
  show "wf (measure (\<lambda>(re, src, repl, lastMatchEnd, searchPos). Suc (length src) - searchPos))"
    by simp
next
  fix re and src repl :: string and lastMatchEnd searchPos :: nat and x2 a0 y a1 cs
  assume le: "\<not> length src < searchPos"
    and found: "search re src searchPos = Some x2" "(a0, y) = x2" "(a1, cs) = y"
  from found have "search re src searchPos = Some (a0, a1, cs)" by simp
  then have "searchPos \<le> a1" using search_bounds by fastforce
  then have "searchPos < advance searchPos (if searchPos < length src then 1 else 0) a1"
    using le by (auto simp: advance_def)
  with le show
    "((re, src, repl, a1, advance searchPos (if searchPos < length src then 1 else 0) a1),
      (re, src, repl, lastMatchEnd, searchPos))
     \<in> measure (\<lambda>(re, src, repl, lastMatchEnd, searchPos). Suc (length src) - searchPos)"
    by simp
qed

declare replaceAll.simps [simp del]

definition ReplaceAllString :: "regexp \<Rightarrow> string \<Rightarrow> string \<Rightarrow> string" where
  "ReplaceAllString re src repl = replaceAll re src repl 0 0"

section \<open>The rule table and the severity table\<close>

fun cat :: "regexp list \<Rightarrow> regexp" where
  "cat [] = Eps"
| "cat [r] = r"
| "cat (r # rs) = Seq r (cat rs)"

definition lits :: "string \<Rightarrow> regexp list" where
  "lits cs = map Lit cs"

definition digit :: regexp where
  "digit = Class [(CHR ''0'', CHR ''9'')]"

definition upper :: regexp where
  "upper = Class [(CHR ''A'', CHR ''Z'')]"

definition lower :: regexp where
  "lower = Class [(CHR ''a'', CHR ''z'')]"

definition one_of :: "string \<Rightarrow> regexp" where
  "one_of cs = Class (map (\<lambda>c. (c, c)) cs)"

text \<open>
  The generic rule, key \<^verbatim>\<open>*\<close>. Its source text ends in \<^verbatim>\<open>[,0-9]{0-3} \<close>. Go's
  parser reads a brace that opens no repetition of the forms \<^verbatim>\<open>{n}\<close>, \<^verbatim>\<open>{n,}\<close>,
  \<^verbatim>\<open>{n,m}\<close> as a literal brace, so the pattern asks for one byte of \<^verbatim>\<open>[,0-9]\<close>
  and then the six bytes \<^verbatim>\<open>{0-3} \<close> themselves.
\<close>

definition re_generic :: regexp where
  "re_generic = cat ([Bol] @ lits ''20'' @ [digit, digit, one_of ''/-'',
     Class [(CHR ''0'', CHR ''1'')], digit, one_of ''/-'', one_of ''0123'', digit, Lit CHR '' '',
     Opt (Class [(CHR ''0'', CHR ''2'')]), digit, Lit CHR '':'',
     Class [(CHR ''0'', CHR ''5'')], digit, Lit CHR '':'',
     Class [(CHR ''0'', CHR ''5'')], digit,
     Class [(CHR '','', CHR '',''), (CHR ''0'', CHR ''9'')]] @ lits ''{0-3} '')"

definition re_nginx :: regexp where
  "re_nginx = cat [Lit CHR ''['', Group 1 ''Priority'' (Plus lower), Lit CHR '']'', Lit CHR '' '']"

definition re_java :: regexp where
  "re_java = cat [Group 1 ''Priority'' (Plus upper), Lit CHR '':'', Lit CHR '' '']"

definition re_mysqld :: regexp where
  "re_mysqld = cat [Bol, Plus digit, Lit CHR '' '', Lit CHR ''['',
     Group 1 ''Priority'' (Seq upper (Plus lower)), Lit CHR '']'', Lit CHR '' '']"

definition re_searchd :: regexp where
  "re_searchd = cat ([Bol, Lit CHR ''['',
     Times 2 (Group 1 [] (cat [upper, Times 2 lower, Lit CHR '' ''])), Lit CHR '' '',
     Plus digit, Lit CHR '' '',
     Class [(CHR ''0'', CHR ''2'')], digit, Lit CHR '':'',
     Class [(CHR ''0'', CHR ''5'')], digit, Lit CHR '':'',
     Class [(CHR ''0'', CHR ''5'')], digit, Lit CHR ''.'', Times 3 digit]
     @ lits '' 20'' @ [digit, digit] @ lits ''] [''
     @ [Plus (Class [(CHR '' '', CHR '' ''), (CHR ''0'', CHR ''9'')])] @ lits ''] '')"

definition re_jenkins :: regexp where
  "re_jenkins = cat ([Bol, upper, Times 2 lower, Lit CHR '' '',
     Class [(CHR ''0'', CHR ''1'')], digit] @ lits '', 20'' @ [digit, digit, Lit CHR '' '',
     Opt (Class [(CHR ''0'', CHR ''2'')]), digit, Lit CHR '':'',
     Class [(CHR ''0'', CHR ''5'')], digit, Lit CHR '':'',
     Class [(CHR ''0'', CHR ''5'')], digit, Lit CHR '' '', one_of ''AP''] @ lits ''M '')"

definition re_php_fpm :: regexp where
  "re_php_fpm = cat ([Bol] @ lits ''pool ''
     @ [Plus (Class [(CHR ''a'', CHR ''z''), (CHR ''_'', CHR ''_''), (CHR ''0'', CHR ''9''),
                     (CHR ''['', CHR ''[''), (CHR '']'', CHR '']''), (CHR ''-'', CHR ''-'')])]
     @ lits '': '')"

definition re_syncthing :: regexp where
  "re_syncthing = cat ([Bol, Lit CHR ''['',
     Times 5 (Class [(CHR ''0'', CHR ''9''), (CHR ''A'', CHR ''Z'')])] @ lits ''] ''
     @ [Class [(CHR ''0'', CHR ''2'')], digit, Lit CHR '':'',
        Class [(CHR ''0'', CHR ''5'')], digit, Lit CHR '':'',
        Class [(CHR ''0'', CHR ''5'')], digit, Lit CHR '' '',
        Group 1 ''Priority'' (cat (lits ''INFO''))] @ lits '': '')"

definition messageReplace :: "string \<rightharpoonup> regexp" where
  "messageReplace = map_of
     [(''*'', re_generic),
      (''nginx'', re_nginx),
      (''java'', re_java),
      (''mysqld'', re_mysqld),
      (''searchd'', re_searchd),
      (''jenkins'', re_jenkins),
      (''php-fpm'', re_php_fpm),
      (''syncthing'', re_syncthing)]"

text \<open>
  The severity table. Reading a Go map at a key it does not hold gives the zero value,
  here severity 0.
\<close>

definition priority_table :: "(string \<times> int) list" where
  "priority_table =
     [(''emergency'', 0), (''emerg'', 0), (''alert'', 1), (''critical'', 2), (''crit'', 2),
      (''error'', 3), (''err'', 3), (''warning'', 4), (''warn'', 4), (''notice'', 5),
      (''info'', 6), (''debug'', 7)]"

definition priorities :: "string \<Rightarrow> int" where
  "priorities key = (case map_of priority_table key of None \<Rightarrow> 0 | Some v \<Rightarrow> v)"

text \<open>
  \<^verbatim>\<open>strings.ToLower\<close> on ASCII text: every Priority group of the table captures
  ASCII letters only.
\<close>

definition lower_byte :: "char \<Rightarrow> char" where
  "lower_byte c = (if byte_in CHR ''A'' CHR ''Z'' c then char_of (of_char c + (32::nat)) else c)"

definition ToLower :: "string \<Rightarrow> string" where
  "ToLower s = map lower_byte s"

section \<open>Entries and their normalization\<close>

text \<open>
  \<^verbatim>\<open>SystemdJournalEntry\<close>, field by field. \<open>Priority\<close> is an \<^verbatim>\<open>int32\<close> and
  \<open>Realtime_timestamp\<close> an \<^verbatim>\<open>int64\<close>; the program stores them, and line 272 subtracts
  the time stamp from the clock, which is written out there.
\<close>

record entry =
  Cursor :: string
  Realtime_timestamp :: int
  Monotonic_timestamp :: string
  Boot_id :: string
  Transport :: string
  Priority :: int
  Syslog_facility :: string
  Syslog_identifier :: string
  Message :: string
  Pid :: string
  Uid :: string
  Gid :: string
  Comm :: string
  Exe :: string
  Cmdline :: string
  Systemd_cgroup :: string
  Systemd_session :: string
  Systemd_owner_uid :: string
  Systemd_unit :: string
  Source_realtime_timestamp :: string
  Machine_id :: string
  Hostname :: string
  Logger :: string
  EventId :: string
  Exception :: string
  Exception_type :: string
  Exception_Stacktrace :: string
  Inner_exception :: string
  Inner_exception_type :: string
  Inner_exception_Stacktrace :: string
  Status_code :: string
  Query_string :: string
  Member_id :: string
  Correlation_id :: string
  Request_path :: string
  Request_id :: string
  FullMessage :: string

text \<open>The entry \<^verbatim>\<open>&SystemdJournalEntry{}\<close>: every field at its zero value.\<close>

definition zero_entry :: entry where
  "zero_entry = \<lparr>Cursor = [], Realtime_timestamp = 0, Monotonic_timestamp = [], Boot_id = [],
     Transport = [], Priority = 0, Syslog_facility = [], Syslog_identifier = [], Message = [],
     Pid = [], Uid = [], Gid = [], Comm = [], Exe = [], Cmdline = [], Systemd_cgroup = [],
     Systemd_session = [], Systemd_owner_uid = [], Systemd_unit = [],
     Source_realtime_timestamp = [], Machine_id = [], Hostname = [], Logger = [], EventId = [],
     Exception = [], Exception_type = [], Exception_Stacktrace = [], Inner_exception = [],
     Inner_exception_type = [], Inner_exception_Stacktrace = [], Status_code = [],
     Query_string = [], Member_id = [], Correlation_id = [], Request_path = [],
     Request_id = [], FullMessage = []\<rparr>"

text \<open>
  \<^verbatim>\<open>process\<close>, lines 144 to 170. \<open>rule_of\<close> is the lookup of lines 148 to 151: the
  rule of the syslog identifier, and the rule of the process name when that key holds
  none. \<open>store_subpatterns\<close> is the loop of lines 163 to 167 over the group names.
\<close>

definition rule_of :: "entry \<Rightarrow> regexp option" where
  "rule_of e =
     (case messageReplace (Syslog_identifier e) of
        None \<Rightarrow> messageReplace (Comm e)
      | Some re \<Rightarrow> Some re)"

definition store_subpatterns :: "regexp \<Rightarrow> string list \<Rightarrow> entry \<Rightarrow> entry" where
  "store_subpatterns re m e =
     fold (\<lambda>(idx, key) e'.
             if key = ''Priority'' then e'\<lparr>Priority := priorities (ToLower (m ! idx))\<rparr> else e')
          (enumerate 0 (SubexpNames re)) e"

definition process :: "entry \<Rightarrow> entry" where
  "process e =
     (let e1 = e\<lparr>Message := ReplaceAllString re_generic (Message e) ''''\<rparr> in
      case rule_of e1 of
        None \<Rightarrow> e1
      | Some re \<Rightarrow>
          (case FindStringSubmatch re (Message e1) of
             None \<Rightarrow> e1
           | Some m \<Rightarrow>
               (let e2 = store_subpatterns re m e1
                in e2\<lparr>Message := ReplaceAllString re (Message e2) ''''\<rparr>)))"

section \<open>The envelope\<close>

text \<open>
  A value decoded from JSON into \<^verbatim>\<open>interface{}\<close>. A number keeps its literal text
  (Go stores its \<^verbatim>\<open>float64\<close> value, which nothing here reads).
\<close>

datatype json =
    JNull
  | JBool bool
  | JNumber string
  | JString string
  | JArray "json list"
  | JObject "(string \<times> json) list"

text \<open>
  \<^verbatim>\<open>json.Unmarshal\<close> belongs to Go's library, not to the program, so \<open>toGelf\<close>
  takes it as a parameter. Applied to a text, the call either returns no error, and
  has stored the members of the object into the map (\<open>Decoded\<close>, the last member of a
  repeated key), or returns an error (\<open>Failed\<close>). A text that is not JSON is refused
  before anything is stored, \<open>Failed Map.empty\<close>; an error found while the values are
  converted, a number outside the range of \<^verbatim>\<open>float64\<close>, is returned after the members
  have been stored, so \<open>Failed\<close> carries what the call has put into the map by then.
  Stored into the map that \<open>toGelf\<close> has filled already, the members override the keys
  that are there.
\<close>

datatype decoded = Failed "string \<rightharpoonup> json" | Decoded "string \<rightharpoonup> json"

type_synonym unmarshal = "string \<Rightarrow> decoded"

record gelf_message =
  Version :: string
  Host :: string
  Short :: string
  Full :: string
  TimeUnix :: real
  Level :: int
  Facility :: string
  Extra :: "string \<rightharpoonup> json"

text \<open>
  What stops the program: reading a field through the nil entry pointer, and the type
  assertion \<^verbatim>\<open>m.(string)\<close> on a value that is not a string.
\<close>

datatype panic = NilDereference | TypeAssertion

definition isJsonMessage :: "entry \<Rightarrow> bool" where
  \<open>isJsonMessage e =
     (64 < length (Message e) \<and> Message e ! 0 = CHR ''{'' \<and> Message e ! 1 = CHR ''"'')\<close>

text \<open>
  The same test in the words of the specification, to compare with: the first two
  characters that are not blanks are a brace and a quote, and the text is longer than
  the threshold.
\<close>

definition spec_json_shaped :: "string \<Rightarrow> bool" where
  \<open>spec_json_shaped s =
     (64 < length s \<and> take 2 (filter (\<lambda>c. c \<noteq> CHR '' '') s) = ''{"'')\<close>

text \<open>\<^verbatim>\<open>strings.Split\<close> at a one-byte separator.\<close>

fun Split :: "string \<Rightarrow> char \<Rightarrow> string list" where
  "Split [] sep = [[]]"
| "Split (c # cs) sep =
     (if c = sep then [] # Split cs sep
      else (case Split cs sep of [] \<Rightarrow> [[c]] | w # ws \<Rightarrow> (c # w) # ws))"

definition newline :: char where
  "newline = CHR 0x0A"

definition fixed_extra :: "entry \<Rightarrow> (string \<rightharpoonup> json)" where
  "fixed_extra e = map_of
     [(''Boot_id'', JString (Boot_id e)),
      (''Pid'', JString (Pid e)),
      (''Uid'', JString (Uid e)),
      (''Logger'', JString (Logger e)),
      (''EventId'', JString (EventId e)),
      (''Exception'', JString (Exception e)),
      (''Exception_Type'', JString (Exception_type e)),
      (''Exception_Stacktrace'', JString (Exception_Stacktrace e)),
      (''Inner_Exception'', JString (Inner_exception e)),
      (''Inner_Exception_Type'', JString (Inner_exception_type e)),
      (''Inner_Exception_Stacktrace'', JString (Inner_exception_Stacktrace e)),
      (''Request_Id'', JString (Request_id e)),
      (''Request_Path'', JString (Request_path e)),
      (''Status_Code'', JString (Status_code e)),
      (''Query_String'', JString (Query_string e)),
      (''Correlation_Id'', JString (Correlation_id e)),
      (''Member_Id'', JString (Member_id e))]"

text \<open>Lines 117 to 120 and 122 to 125: a reserved key moves from the map to the entry.\<close>

definition take_Message :: "entry \<times> (string \<rightharpoonup> json) \<Rightarrow> panic + entry \<times> (string \<rightharpoonup> json)" where
  "take_Message ex =
     (case snd ex ''Message'' of
        None \<Rightarrow> Inr ex
      | Some (JString m) \<Rightarrow> Inr ((fst ex)\<lparr>Message := m\<rparr>, (snd ex)(''Message'' := None))
      | Some _ \<Rightarrow> Inl TypeAssertion)"

definition take_FullMessage :: "entry \<times> (string \<rightharpoonup> json) \<Rightarrow> panic + entry \<times> (string \<rightharpoonup> json)" where
  "take_FullMessage ex =
     (case snd ex ''FullMessage'' of
        None \<Rightarrow> Inr ex
      | Some (JString f) \<Rightarrow> Inr ((fst ex)\<lparr>FullMessage := f\<rparr>, (snd ex)(''FullMessage'' := None))
      | Some _ \<Rightarrow> Inl TypeAssertion)"

definition envelope :: "entry \<Rightarrow> string \<Rightarrow> (string \<rightharpoonup> json) \<Rightarrow> gelf_message" where
  "envelope e facility extra =
     \<lparr>Version = ''1.1'', Host = Hostname e, Short = Message e, Full = FullMessage e,
      TimeUnix = real_of_int (Realtime_timestamp e) / 1000 / 1000, Level = Priority e,
      Facility = facility, Extra = extra\<rparr>"

text \<open>
  \<^verbatim>\<open>toGelf\<close>, lines 88 to 142: the entry as the call leaves it (the method rewrites
  \<open>Message\<close> and \<open>FullMessage\<close> of its receiver) and the envelope, or the panic.
\<close>

definition toGelf :: "unmarshal \<Rightarrow> entry \<Rightarrow> panic + entry \<times> gelf_message" where
  "toGelf un e =
     (let extra = fixed_extra e;
          facility = (if Syslog_identifier e = [] then Comm e else Syslog_identifier e)
      in if isJsonMessage e then
           (case un (Message e) of
              Failed stored \<Rightarrow> Inr (e, envelope e facility (extra ++ stored))
            | Decoded obj \<Rightarrow>
                (case take_Message (e, extra ++ obj) of
                   Inl p \<Rightarrow> Inl p
                 | Inr ex \<Rightarrow>
                     (case take_FullMessage ex of
                        Inl p \<Rightarrow> Inl p
                      | Inr ex' \<Rightarrow> Inr (fst ex', envelope (fst ex') facility (snd ex')))))
         else if newline \<in> set (Message e) then
           (let e' = e\<lparr>FullMessage := Message e\<rparr>;
                e'' = e'\<lparr>Message := hd (Split (Message e') newline)\<rparr>
            in Inr (e'', envelope e'' facility extra))
         else Inr (e, envelope e facility extra))"

text \<open>
  What lines 117 to 125 make of one reserved key of the decoded object, for the field
  that holds \<open>old\<close>: the field keeps \<open>old\<close> when the object has no such member, it takes
  the member when that is a string, and the type assertion panics on any other member.
\<close>

fun string_member :: "json option \<Rightarrow> string \<Rightarrow> panic + string" where
  "string_member None old = Inr old"
| "string_member (Some (JString s)) old = Inr s"
| "string_member (Some j) old = Inl TypeAssertion"

section \<open>Delivery and the pending slot\<close>

text \<open>
  What the program does to the outside is kept as a trace of events: taking and
  releasing the lock of the pending slot, a call of \<^verbatim>\<open>writer.WriteMessage\<close> with its
  envelope and whether it returned no error, a line on the error stream, and a sleep
  (in milliseconds). The transport is a script: the error text of the call of
  \<^verbatim>\<open>WriteMessage\<close> that \<open>k\<close> calls came before, \<open>None\<close> when that call succeeds.
\<close>

datatype event =
    Lock
  | Unlock
  | WriteMessage gelf_message bool
  | Stderr string
  | Sleep nat

type_synonym transport = "nat \<Rightarrow> string option"

definition WRITE_INTERVAL :: nat where
  "WRITE_INTERVAL = 50"

definition SAMESOURCE_TIME_DIFFERENCE :: int where
  "SAMESOURCE_TIME_DIFFERENCE = 100 * 1000"

definition SLEEP_AFTER_ERROR :: nat where
  "SLEEP_AFTER_ERROR = 15 * 1000"

primrec is_write :: "event \<Rightarrow> bool" where
  "is_write Lock = False"
| "is_write Unlock = False"
| "is_write (WriteMessage m ok) = True"
| "is_write (Stderr l) = False"
| "is_write (Sleep n) = False"

definition writes :: "event list \<Rightarrow> nat" where
  "writes trace = length (filter is_write trace)"

text \<open>
  \<^verbatim>\<open>send\<close>, lines 172 to 184. The retry is a call of \<^verbatim>\<open>send\<close> on the same
  receiver, which \<^verbatim>\<open>toGelf\<close> has rewritten, and it builds the envelope again. A
  transport that fails for ever keeps \<^verbatim>\<open>send\<close> from returning: the result \<open>None\<close>.
\<close>

partial_function (option) send ::
  "unmarshal \<Rightarrow> transport \<Rightarrow> entry \<Rightarrow> event list \<Rightarrow> (panic + entry \<times> event list) option" where
  "send un tr e trace =
     (case toGelf un e of
        Inl p \<Rightarrow> Some (Inl p)
      | Inr em \<Rightarrow>
          (case tr (writes trace) of
             None \<Rightarrow> Some (Inr (fst em, trace @ [WriteMessage (snd em) True]))
           | Some err \<Rightarrow>
               send un tr (fst em)
                 (trace @ [WriteMessage (snd em) False,
                           Stderr (''Processing paused because of: '' @ err),
                           Sleep SLEEP_AFTER_ERROR])))"

text \<open>
  The loop of \<^verbatim>\<open>main\<close>, lines 230 to 254, as the main task runs it on its own. A line
  is given by what \<^verbatim>\<open>json.Unmarshal\<close> makes of it: \<open>None\<close> for a line on which the call
  returns an error, which the loop skips, and the entry it has filled otherwise. The
  slot is \<^verbatim>\<open>pending.entry\<close>, \<open>None\<close> for nil. Two runs of the loop are not among these:
  the line \<^verbatim>\<open>null\<close>, on which the call returns no error and sets the entry pointer to
  nil, so that \<^verbatim>\<open>process\<close> stops the program at line 146; and a read error of the
  scanner, lines 256 to 260, after which the program exits at once.
\<close>

primrec ingest ::
  "unmarshal \<Rightarrow> transport \<Rightarrow> entry option list \<Rightarrow> entry option \<Rightarrow> event list
   \<Rightarrow> (panic + entry option \<times> event list) option" where
  "ingest un tr [] slot trace = Some (Inr (slot, trace))"
| "ingest un tr (line # rest) slot trace =
     (case line of
        None \<Rightarrow> ingest un tr rest slot trace
      | Some parsed \<Rightarrow>
          (let entry = process parsed in
           case slot of
             None \<Rightarrow> ingest un tr rest (Some entry) (trace @ [Lock, Unlock, Sleep 1])
           | Some occupant \<Rightarrow>
               (case send un tr occupant (trace @ [Lock]) of
                  None \<Rightarrow> None
                | Some (Inl p) \<Rightarrow> Some (Inl p)
                | Some (Inr r) \<Rightarrow> ingest un tr rest (Some entry) (snd r @ [Unlock, Sleep 1]))))"

text \<open>
  Line 263, \<^verbatim>\<open>pending.entry.send()\<close>: the call goes through the pointer without a
  test, and \<^verbatim>\<open>toGelf\<close> reads the fields of its receiver first.
\<close>

definition final_flush ::
  "unmarshal \<Rightarrow> transport \<Rightarrow> entry option \<Rightarrow> event list \<Rightarrow> (panic + event list) option" where
  "final_flush un tr slot trace =
     (case slot of
        None \<Rightarrow> Some (Inl NilDereference)
      | Some occupant \<Rightarrow> map_option (map_sum id snd) (send un tr occupant trace))"

definition main_task ::
  "unmarshal \<Rightarrow> transport \<Rightarrow> entry option list \<Rightarrow> (panic + event list) option" where
  "main_task un tr lines =
     (case ingest un tr lines None [] of
        None \<Rightarrow> None
      | Some (Inl p) \<Rightarrow> Some (Inl p)
      | Some (Inr r) \<Rightarrow> final_flush un tr (fst r) (snd r))"

text \<open>
  The value of an integer as \<^verbatim>\<open>int64\<close> holds it: arithmetic on \<^verbatim>\<open>int64\<close> wraps around.
\<close>

definition int64 :: "int \<Rightarrow> int" where
  "int64 x = (x + 2 ^ 63) mod 2 ^ 64 - 2 ^ 63"

text \<open>
  One round of \<^verbatim>\<open>writePendingEntry\<close>, lines 270 to 279, run with no step of the main
  task in between; \<open>now\<close> is \<^verbatim>\<open>time.Now().UnixNano()/1000\<close>. The subtraction of
  line 272 is one of \<^verbatim>\<open>int64\<close>.
\<close>

definition flush_round ::
  "unmarshal \<Rightarrow> transport \<Rightarrow> int \<Rightarrow> entry option \<Rightarrow> event list
   \<Rightarrow> (panic + entry option \<times> event list) option" where
  "flush_round un tr now slot trace =
     (case slot of
        None \<Rightarrow> Some (Inr (None, trace @ [Sleep WRITE_INTERVAL]))
      | Some occupant \<Rightarrow>
          if SAMESOURCE_TIME_DIFFERENCE < int64 (now - Realtime_timestamp occupant) then
            map_option (map_sum id (\<lambda>r. (None, snd r)))
              (send un tr occupant (trace @ [Sleep WRITE_INTERVAL, Lock, Unlock]))
          else Some (Inr (slot, trace @ [Sleep WRITE_INTERVAL])))"




primrec label :: "event \<Rightarrow> string" where
  "label Lock = ''Lock''"
| "label Unlock = ''Unlock''"
| "label (WriteMessage m ok) = (if ok then ''WriteMessage ok'' else ''WriteMessage error'')"
| "label (Stderr l) = ''Stderr''"
| "label (Sleep n) = ''Sleep''"



text \<open>What a trace shows of the deliveries: the envelopes that the transport took.\<close>

fun delivered :: "event list \<Rightarrow> gelf_message list" where
  "delivered [] = []"
| "delivered (WriteMessage m True # es) = m # delivered es"
| "delivered (ev # es) = delivered es"

primrec is_sleep :: "event \<Rightarrow> bool" where
  "is_sleep Lock = False"
| "is_sleep Unlock = False"
| "is_sleep (WriteMessage m ok) = False"
| "is_sleep (Stderr l) = False"
| "is_sleep (Sleep n) = True"

primrec is_stderr :: "event \<Rightarrow> bool" where
  "is_stderr Lock = False"
| "is_stderr Unlock = False"
| "is_stderr (WriteMessage m ok) = False"
| "is_stderr (Stderr l) = True"
| "is_stderr (Sleep n) = False"

text \<open>
  What \<^verbatim>\<open>send\<close> adds to the trace when the transport fails \<open>n\<close> times, with the
  error texts \<open>err 0\<close>, \<open>err 1\<close>, and so on, and then takes the envelope \<open>g\<close>.
\<close>

definition retry_events :: "gelf_message \<Rightarrow> (nat \<Rightarrow> string) \<Rightarrow> nat \<Rightarrow> event list" where
  "retry_events g err n =
     concat (map (\<lambda>k. [WriteMessage g False, Stderr (''Processing paused because of: '' @ err k),
                        Sleep SLEEP_AFTER_ERROR]) [0..<n])
     @ [WriteMessage g True]"




text \<open>Two transports: one that takes every envelope, one that fails on its first \<open>n\<close> calls.\<close>

definition always_ok :: transport where
  "always_ok k = None"

definition fails_first :: "nat \<Rightarrow> transport" where
  "fails_first n k = (if k < n then Some ''connection refused'' else None)"

section \<open>A decoder for the examples\<close>

text \<open>
  The examples below need one decoder to run on. \<open>flat_members\<close> reads the JSON
  objects whose members are strings (with the escapes \<^verbatim>\<open>\"\<close>, \<^verbatim>\<open>\\\<close>, \<^verbatim>\<open>\/\<close> and
  \<^verbatim>\<open>\n\<close>), integers, \<^verbatim>\<open>true\<close>, \<^verbatim>\<open>false\<close> and \<^verbatim>\<open>null\<close>, with blanks between the
  tokens, and no other text; \<open>flat_unmarshal\<close> is \<open>Decoded\<close> with these members, and
  \<open>Failed\<close> with nothing stored on every other text. It is run on the texts of the
  examples only, and on those it gives what \<^verbatim>\<open>json.Unmarshal\<close> gives. The general
  theorems hold for every decoder.
\<close>

datatype token = TLbrace | TRbrace | TColon | TComma | TStr string | TWord string

datatype lexmode = Outside | InString string | Escaped string | InWord string

definition blank :: "char \<Rightarrow> bool" where
  "blank c = (c = CHR '' '' \<or> c = CHR 0x09 \<or> c = CHR 0x0A \<or> c = CHR 0x0D)"

definition wordchar :: "char \<Rightarrow> bool" where
  "wordchar c = (byte_in CHR ''a'' CHR ''z'' c \<or> byte_in CHR ''0'' CHR ''9'' c \<or> c = CHR ''-'')"

definition punct :: "char \<Rightarrow> token option" where
  "punct c =
     (if c = CHR ''{'' then Some TLbrace else if c = CHR ''}'' then Some TRbrace
      else if c = CHR '':'' then Some TColon else if c = CHR '','' then Some TComma
      else None)"

definition unescape :: "char \<Rightarrow> char option" where
  \<open>unescape c =
     (if c = CHR ''"'' \<or> c = CHR 0x5C \<or> c = CHR ''/'' then Some c
      else if c = CHR ''n'' then Some (CHR 0x0A)
      else None)\<close>

fun lex :: "lexmode \<Rightarrow> string \<Rightarrow> token list option" where
  "lex Outside [] = Some []"
| "lex (InString acc) [] = None"
| "lex (Escaped acc) [] = None"
| "lex (InWord acc) [] = Some [TWord (rev acc)]"
| \<open>lex Outside (c # cs) =
     (if blank c then lex Outside cs
      else if c = CHR ''"'' then lex (InString []) cs
      else if wordchar c then lex (InWord [c]) cs
      else (case punct c of None \<Rightarrow> None | Some t \<Rightarrow> map_option ((#) t) (lex Outside cs)))\<close>
| \<open>lex (InString acc) (c # cs) =
     (if c = CHR ''"'' then map_option ((#) (TStr (rev acc))) (lex Outside cs)
      else if c = CHR 0x5C then lex (Escaped acc) cs
      else if (of_char c :: nat) < 32 then None
      else lex (InString (c # acc)) cs)\<close>
| "lex (Escaped acc) (c # cs) =
     (case unescape c of None \<Rightarrow> None | Some c' \<Rightarrow> lex (InString (c' # acc)) cs)"
| "lex (InWord acc) (c # cs) =
     (if wordchar c then lex (InWord (c # acc)) cs
      else if blank c then map_option ((#) (TWord (rev acc))) (lex Outside cs)
      else (case punct c of
              None \<Rightarrow> None
            | Some t \<Rightarrow> map_option (\<lambda>ts. TWord (rev acc) # t # ts) (lex Outside cs)))"

text \<open>The text of a JSON string with the value \<open>s\<close>, for printable \<open>s\<close>.\<close>

definition escape :: "string \<Rightarrow> string" where
  \<open>escape s =
     concat (map (\<lambda>c. if c = CHR ''"'' \<or> c = CHR 0x5C then [CHR 0x5C, c] else [c]) s)\<close>

definition integer_text :: "string \<Rightarrow> bool" where
  "integer_text w =
     (let ds = (if take 1 w = ''-'' then drop 1 w else w)
      in ds \<noteq> [] \<and> list_all (byte_in CHR ''0'' CHR ''9'') ds \<and> (ds = ''0'' \<or> take 1 ds \<noteq> ''0''))"

definition value_of :: "token \<Rightarrow> json option" where
  "value_of t =
     (case t of
        TStr s \<Rightarrow> Some (JString s)
      | TWord w \<Rightarrow>
          if w = ''null'' then Some JNull
          else if w = ''true'' then Some (JBool True)
          else if w = ''false'' then Some (JBool False)
          else if integer_text w then Some (JNumber w)
          else None
      | _ \<Rightarrow> None)"

fun members :: "token list \<Rightarrow> (string \<times> json) list option" where
  "members (TStr k # TColon # v # TComma # rest) =
     (case value_of v of
        None \<Rightarrow> None
      | Some j \<Rightarrow> map_option ((#) (k, j)) (members rest))"
| "members [TStr k, TColon, v, TRbrace] = map_option (\<lambda>j. [(k, j)]) (value_of v)"
| "members ts = None"

definition flat_members :: "string \<Rightarrow> (string \<rightharpoonup> json) option" where
  "flat_members text =
     (case lex Outside text of
        None \<Rightarrow> None
      | Some ts \<Rightarrow>
          if ts = [TLbrace, TRbrace] then Some Map.empty
          else (case ts of
                  TLbrace # ms \<Rightarrow> map_option (\<lambda>kvs. map_of (rev kvs)) (members ms)
                | _ \<Rightarrow> None))"

definition flat_unmarshal :: unmarshal where
  "flat_unmarshal text =
     (case flat_members text of None \<Rightarrow> Failed Map.empty | Some obj \<Rightarrow> Decoded obj)"

text \<open>
  The texts of the examples: a message in JSON, one with an escaped line break, one
  that opens like an object and is not JSON, and one nested in another.
\<close>

definition json_text :: string where
  \<open>json_text =
     ''{"Message":"payment failed","FullMessage":"payment failed: card declined","user":"bob","code":402}''\<close>

definition two_line_json_text :: string where
  \<open>two_line_json_text =
     ''{"Message":"line one'' @ [CHR 0x5C] @ ''nline two","detail":"a text with an escaped line break"}''\<close>

definition undecodable_text :: string where
  \<open>undecodable_text =
     ''{"Message": this text opens like an object but it is not JSON at all}''\<close>

definition inner_text :: string where
  \<open>inner_text =
     ''{"Message":null,"detail":"the inner object is itself longer than 64 bytes"}''\<close>

definition nested_text :: string where
  \<open>nested_text = ''{"Message":"'' @ escape inner_text @ ''"}''\<close>

section \<open>Properties of the matcher\<close>

text \<open>
  The budget of the greedy iteration is enough: when every pass moves forward and stays
  within the text, as a class does, any budget above the number of bytes left gives
  the same threads.
\<close>

lemma greedy_plus_enough:
  assumes "\<And>t t'. t' \<in> set (f t) \<Longrightarrow> fst t < fst t' \<and> fst t' \<le> L"
  shows "L - fst t < n \<Longrightarrow> L - fst t < m \<Longrightarrow> greedy_plus n f t = greedy_plus m f t"
proof (induction n arbitrary: m t)
  case 0
  then show ?case by simp
next
  case (Suc n)
  then obtain m' where m: "m = Suc m'" by (cases m) auto
  have "greedy_plus n f t' = greedy_plus m' f t'" if "t' \<in> set (f t)" for t'
  proof (rule Suc.IH)
    from assms [OF that] Suc.prems(1) show "L - fst t' < n" by linarith
    from assms [OF that] Suc.prems(2) m show "L - fst t' < m'" by linarith
  qed
  then show ?case by (simp add: m cong: map_cong)
qed

lemma run_Plus_Class:
  assumes "length s - fst t < n"
  shows "greedy_plus n (run (Class rs) s) t = run (Plus (Class rs)) s t"
proof -
  have step: "fst u < fst u' \<and> fst u' \<le> length s" if "u' \<in> set (run (Class rs) s u)" for u u'
    using that by (auto split: if_splits)
  have "greedy_plus n (run (Class rs) s) t
      = greedy_plus (Suc (length s - fst t)) (run (Class rs) s) t"
  proof (rule greedy_plus_enough)
    show "\<And>u u'. u' \<in> set (run (Class rs) s u) \<Longrightarrow> fst u < fst u' \<and> fst u' \<le> length s"
      by (rule step)
    show "length s - fst t < n" by (rule assms)
    show "length s - fst t < Suc (length s - fst t)" by simp
  qed
  then show ?thesis by simp
qed

lemma repeat_n_bound:
  assumes "\<And>t t'. t' \<in> set (f t) \<Longrightarrow> fst t \<le> n \<Longrightarrow> fst t' \<le> (n::nat)"
  shows "t' \<in> set (repeat_n k f t) \<Longrightarrow> fst t \<le> n \<Longrightarrow> fst t' \<le> n"
proof (induction k arbitrary: t)
  case 0
  then show ?case by simp
next
  case (Suc k)
  then obtain u where "u \<in> set (f t)" "t' \<in> set (repeat_n k f u)" by auto
  with Suc assms show ?case by blast
qed

lemma greedy_plus_bound:
  assumes "\<And>t t'. t' \<in> set (f t) \<Longrightarrow> fst t \<le> n \<Longrightarrow> fst t' \<le> (n::nat)"
  shows "t' \<in> set (greedy_plus k f t) \<Longrightarrow> fst t \<le> n \<Longrightarrow> fst t' \<le> n"
proof (induction k arbitrary: t)
  case 0
  then show ?case by simp
next
  case (Suc k)
  then obtain u where u: "u \<in> set (f t)" "t' \<in> set (greedy_plus k f u) \<or> t' = u" by auto
  with Suc assms show ?case by blast
qed

lemma run_bound: "t' \<in> set (run re s t) \<Longrightarrow> fst t \<le> length s \<Longrightarrow> fst t' \<le> length s"
proof (induction re arbitrary: t t')
  case (Seq a b)
  then obtain u where "u \<in> set (run a s t)" "t' \<in> set (run b s u)" by auto
  with Seq show ?case by blast
next
  case (Plus a)
  have "t' \<in> set (greedy_plus (Suc (length s - fst t)) (run a s) t)"
    using Plus.prems by simp
  then show ?case using Plus.prems(2) by (rule greedy_plus_bound [rotated]) (rule Plus.IH)
next
  case (Times n a)
  have "t' \<in> set (repeat_n n (run a s) t)"
    using Times.prems by simp
  then show ?case using Times.prems(2) by (rule repeat_n_bound [rotated]) (rule Times.IH)
qed (auto split: if_splits)

lemma search_end_bound:
  "search re s p = Some (a0, a1, cs) \<Longrightarrow> a1 \<le> length s"
proof (induction re s p rule: search.induct)
  case (1 re s p)
  show ?case
  proof (cases "run re s (p, Map.empty)")
    case Nil
    with "1.prems" have "\<not> length s < p" and "search re s (Suc p) = Some (a0, a1, cs)"
      by (auto simp: search.simps [of re s p] split: if_splits)
    with "1.IH" Nil show ?thesis by fastforce
  next
    case (Cons t ts)
    with "1.prems" have le: "p \<le> length s" and t: "a1 = fst t"
      by (auto simp: search.simps [of re s p] split: if_splits)
    from Cons have "t \<in> set (run re s (p, Map.empty))" by simp
    with le have "fst t \<le> length s" using run_bound by fastforce
    with t show ?thesis by simp
  qed
qed

lemma anchored_run: "anchored re \<Longrightarrow> 0 < fst t \<Longrightarrow> run re s t = []"
  by (induction re arbitrary: t rule: anchored.induct) auto

lemma anchored_search: "anchored re \<Longrightarrow> 0 < p \<Longrightarrow> search re s p = None"
proof (induction re s p rule: search.induct)
  case (1 re s p)
  then have "run re s (p, Map.empty) = []" by (simp add: anchored_run)
  with 1 show ?case by (simp add: search.simps [of re s p])
qed

lemma anchored_search_start:
  assumes "anchored re" "search re s 0 = Some (a0, a1, cs)"
  shows "a0 = 0"
proof (cases "run re s (0, Map.empty)")
  case Nil
  with assms(2) have "search re s (Suc 0) = Some (a0, a1, cs)"
    by (simp add: search.simps [of re s 0])
  with anchored_search [OF assms(1), of "Suc 0" s] show ?thesis by simp
next
  case (Cons t ts)
  with assms(2) show ?thesis by (simp add: search.simps [of re s 0])
qed

lemma advance_ge: "a1 \<le> advance p w a1"
  by (simp add: advance_def)

lemma replaceAll_anchored:
  assumes "anchored re" "search re s 0 = Some (a0, a1, cs)"
  shows "replaceAll re s [] 0 0 = drop a1 s"
proof -
  have a0: "a0 = 0" using assms by (rule anchored_search_start)
  define q where "q = advance 0 (if 0 < length s then 1 else 0) a1"
  have "0 < q" unfolding q_def advance_def by auto
  then have "search re s q = None" using assms(1) by (simp add: anchored_search)
  then have "replaceAll re s [] a1 q = drop a1 s"
    by (simp add: replaceAll.simps [of re s "[]" a1 q])
  then show ?thesis using assms(2) a0
    by (simp add: replaceAll.simps [of re s "[]" 0 0] q_def)
qed

lemma replaceAll_length:
  "lastEnd \<le> p \<Longrightarrow> length (replaceAll re s [] lastEnd p) \<le> length s - lastEnd"
proof (induction re s "[] :: string" lastEnd p rule: replaceAll.induct)
  case (1 re s lastEnd p)
  show ?case
  proof (cases "length s < p \<or> search re s p = None")
    case True
    then show ?thesis by (auto simp: replaceAll.simps [of re s "[]" lastEnd p])
  next
    case False
    then obtain a0 a1 cs where f: "\<not> length s < p" "search re s p = Some (a0, a1, cs)"
      by (cases "search re s p") auto
    define q where "q = advance p (if p < length s then 1 else 0) a1"
    have b: "p \<le> a0" "a0 \<le> a1" "a0 \<le> length s" using search_bounds [OF f(2)] by auto
    have "a1 \<le> q" unfolding q_def by (rule advance_ge)
    then have "length (replaceAll re s [] a1 q) \<le> length s - a1"
      using "1.hyps" [OF f(1) f(2) refl refl] unfolding q_def by simp
    moreover have "replaceAll re s [] lastEnd p
        = take (a0 - lastEnd) (drop lastEnd s) @ replaceAll re s [] a1 q"
      using f by (simp add: replaceAll.simps [of re s "[]" lastEnd p] q_def)
    ultimately show ?thesis using b "1.prems" by simp
  qed
qed

lemma replaceAll_first:
  assumes "search re s 0 = Some (a0, a1, cs)"
  shows "take a0 (replaceAll re s [] 0 0) = take a0 s"
    and "length (replaceAll re s [] 0 0) + (a1 - a0) \<le> length s"
proof -
  define q where "q = advance 0 (if 0 < length s then 1 else 0) a1"
  have b: "a0 \<le> a1" "a0 \<le> length s" "a1 \<le> length s"
    using search_bounds [OF assms] search_end_bound [OF assms] by auto
  have eq: "replaceAll re s [] 0 0 = take a0 s @ replaceAll re s [] a1 q"
    using assms by (simp add: replaceAll.simps [of re s "[]" 0 0] q_def)
  show "take a0 (replaceAll re s [] 0 0) = take a0 s"
    using b by (simp add: eq)
  have "a1 \<le> q" unfolding q_def by (rule advance_ge)
  then have "length (replaceAll re s [] a1 q) \<le> length s - a1" by (rule replaceAll_length)
  then show "length (replaceAll re s [] 0 0) + (a1 - a0) \<le> length s"
    using b by (simp add: eq)
qed

section \<open>Properties of normalization\<close>

lemma priorities_range: "0 \<le> priorities w \<and> priorities w \<le> 7"
  by (simp add: priorities_def priority_table_def)

lemma priorities_unmapped: "map_of priority_table w = None \<Longrightarrow> priorities w = 0"
  by (simp add: priorities_def)

lemma fold_priority_frame:
  "\<exists>p. fold (\<lambda>(idx, key) e'. if key = ''Priority'' then e'\<lparr>Priority := f idx\<rparr> else e') xs e
        = e\<lparr>Priority := p\<rparr> \<and> (p = Priority e \<or> p \<in> range f)"
proof (induction xs arbitrary: e)
  case Nil
  have "e = e\<lparr>Priority := Priority e\<rparr>" by simp
  then show ?case by (metis fold_simps(1))
next
  case (Cons x xs)
  obtain idx key where x: "x = (idx, key)" by (cases x)
  show ?case
  proof (cases "key = ''Priority''")
    case True
    from Cons [of "e\<lparr>Priority := f idx\<rparr>"] obtain p where
      "fold (\<lambda>(idx, key) e'. if key = ''Priority'' then e'\<lparr>Priority := f idx\<rparr> else e') xs
         (e\<lparr>Priority := f idx\<rparr>) = e\<lparr>Priority := f idx\<rparr>\<lparr>Priority := p\<rparr>"
      "p = f idx \<or> p \<in> range f" by auto
    with True x show ?thesis by auto
  next
    case False
    with Cons [of e] x show ?thesis by auto
  qed
qed

lemma store_subpatterns_cases:
  "\<exists>p. store_subpatterns re m e = e\<lparr>Priority := p\<rparr> \<and> (p = Priority e \<or> (\<exists>w. p = priorities w))"
proof -
  from fold_priority_frame [of "\<lambda>idx. priorities (ToLower (m ! idx))" "enumerate 0 (SubexpNames re)" e]
  show ?thesis unfolding store_subpatterns_def by auto
qed

lemma process_cases:
  "\<exists>msg p. process e = e\<lparr>Message := msg, Priority := p\<rparr> \<and> (p = Priority e \<or> (\<exists>w. p = priorities w))"
proof -
  define e1 where "e1 = e\<lparr>Message := ReplaceAllString re_generic (Message e) []\<rparr>"
  have e1: "e1 = e\<lparr>Message := Message e1, Priority := Priority e\<rparr>"
    by (simp add: e1_def)
  show ?thesis
  proof (cases "rule_of e1")
    case None
    then have "process e = e1" by (simp add: process_def e1_def Let_def)
    with e1 show ?thesis by metis
  next
    case (Some re)
    show ?thesis
    proof (cases "FindStringSubmatch re (Message e1)")
      case None
      with Some have "process e = e1" by (simp add: process_def e1_def Let_def)
      with e1 show ?thesis by metis
    next
      case m: (Some m)
      from store_subpatterns_cases [of re m e1] obtain p where
        p: "store_subpatterns re m e1 = e1\<lparr>Priority := p\<rparr>"
           "p = Priority e1 \<or> (\<exists>w. p = priorities w)" by blast
      have "process e = (e1\<lparr>Priority := p\<rparr>)\<lparr>Message := ReplaceAllString re (Message (e1\<lparr>Priority := p\<rparr>)) []\<rparr>"
        using Some m p(1) by (simp add: process_def e1_def [symmetric] Let_def)
      then have "process e = e\<lparr>Message := ReplaceAllString re (Message e1) [], Priority := p\<rparr>"
        by (simp add: e1_def)
      moreover have "Priority e1 = Priority e" by (simp add: e1_def)
      ultimately show ?thesis using p(2) by metis
    qed
  qed
qed

text \<open>
  Claim C10. Normalization changes the message and the severity of an entry and
  nothing else: every other field of the entry, the full message among them, is what
  it was before.
\<close>

theorem process_frame:
  "process e = e\<lparr>Message := Message (process e), Priority := Priority (process e)\<rparr>"
proof -
  from process_cases [of e] obtain msg p where "process e = e\<lparr>Message := msg, Priority := p\<rparr>"
    by blast
  then show ?thesis by simp
qed

lemma rule_of_table:
  assumes "rule_of e = Some re"
  shows "re \<in> {re_generic, re_nginx, re_java, re_mysqld, re_searchd, re_jenkins, re_php_fpm, re_syncthing}"
proof -
  from assms obtain k where "messageReplace k = Some re"
    by (auto simp: rule_of_def split: option.splits)
  then have "(k, re) \<in> set [(''*'', re_generic), (''nginx'', re_nginx), (''java'', re_java),
      (''mysqld'', re_mysqld), (''searchd'', re_searchd), (''jenkins'', re_jenkins),
      (''php-fpm'', re_php_fpm), (''syncthing'', re_syncthing)]"
    unfolding messageReplace_def by (rule map_of_SomeD)
  then show ?thesis by auto
qed

lemma table_names:
  "SubexpNames re_generic = [[]]"
  "SubexpNames re_nginx = [[], ''Priority'']"
  "SubexpNames re_java = [[], ''Priority'']"
  "SubexpNames re_mysqld = [[], ''Priority'']"
  "SubexpNames re_searchd = [[], []]"
  "SubexpNames re_jenkins = [[]]"
  "SubexpNames re_php_fpm = [[]]"
  "SubexpNames re_syncthing = [[], ''Priority'']"
  by (simp_all add: SubexpNames_def re_generic_def re_nginx_def re_java_def re_mysqld_def
      re_searchd_def re_jenkins_def re_php_fpm_def re_syncthing_def lits_def digit_def
      upper_def lower_def one_of_def)

lemma table_anchored:
  "anchored re_generic" "\<not> anchored re_nginx" "\<not> anchored re_java" "anchored re_mysqld"
  "anchored re_searchd" "anchored re_jenkins" "anchored re_php_fpm" "anchored re_syncthing"
  by (simp_all add: re_generic_def re_nginx_def re_java_def re_mysqld_def
      re_searchd_def re_jenkins_def re_php_fpm_def re_syncthing_def lits_def digit_def
      upper_def lower_def one_of_def)

lemma store_subpatterns_table:
  assumes "rule_of e = Some re"
  shows "store_subpatterns re m e' =
     (if ''Priority'' \<in> set (SubexpNames re) then e'\<lparr>Priority := priorities (ToLower (m ! 1))\<rparr>
      else e')"
  using rule_of_table [OF assms]
  by (auto simp: table_names store_subpatterns_def enumerate_simps)

lemma rule_of_Message: "rule_of (e\<lparr>Message := msg\<rparr>) = rule_of e"
  by (simp add: rule_of_def split: option.splits)

lemma process_unfold:
  assumes "rule_of e = Some re" "msg = ReplaceAllString re_generic (Message e) []"
    "FindStringSubmatch re msg = Some m"
  shows "process e = (store_subpatterns re m (e\<lparr>Message := msg\<rparr>))\<lparr>Message := ReplaceAllString re msg []\<rparr>"
proof -
  have r: "rule_of (e\<lparr>Message := msg\<rparr>) = Some re" using assms(1) by (simp add: rule_of_Message)
  obtain p where p: "store_subpatterns re m (e\<lparr>Message := msg\<rparr>) = e\<lparr>Message := msg\<rparr>\<lparr>Priority := p\<rparr>"
    using store_subpatterns_cases by blast
  show ?thesis using r assms(3) p
    by (simp add: process_def Let_def assms(2) [symmetric])
qed

text \<open>
  Claim C3, amended. Normalization sets the severity in one case only: the rule of the
  entry (the rule of its syslog identifier, else of its process name) has a group named
  Priority, which then is its first group, and matches the message that the generic
  rule has left. In that case the severity is what the severity table gives for the
  lower-cased text of the group: one of the levels 0 to 7, and 0 when the table does
  not hold the word. In every other case (no rule, a rule that does not match, a rule
  without the group) the severity is the one the line was parsed with, whatever number
  that is.
\<close>

theorem process_severity:
  "(case rule_of e of
      None \<Rightarrow> Priority (process e) = Priority e
    | Some re \<Rightarrow>
        (case FindStringSubmatch re (ReplaceAllString re_generic (Message e) []) of
           None \<Rightarrow> Priority (process e) = Priority e
         | Some m \<Rightarrow>
             if ''Priority'' \<in> set (SubexpNames re)
             then SubexpNames re = [[], ''Priority'']
               \<and> Priority (process e) = priorities (ToLower (m ! 1))
               \<and> Priority (process e) \<in> {0..7}
               \<and> (map_of priority_table (ToLower (m ! 1)) = None \<longrightarrow> Priority (process e) = 0)
             else Priority (process e) = Priority e))"
proof (cases "rule_of e")
  case None
  then have "process e = e\<lparr>Message := ReplaceAllString re_generic (Message e) []\<rparr>"
    by (simp add: process_def Let_def rule_of_Message)
  then have "Priority (process e) = Priority e" by simp
  with None show ?thesis by simp
next
  case (Some re)
  let ?msg = "ReplaceAllString re_generic (Message e) []"
  have r: "rule_of (e\<lparr>Message := ?msg\<rparr>) = Some re" using Some by (simp add: rule_of_Message)
  show ?thesis
  proof (cases "FindStringSubmatch re ?msg")
    case None
    with r have "process e = e\<lparr>Message := ?msg\<rparr>"
      by (simp add: process_def Let_def)
    then have "Priority (process e) = Priority e" by simp
    with Some None show ?thesis by simp
  next
    case found: (Some m)
    have p: "process e
        = (store_subpatterns re m (e\<lparr>Message := ?msg\<rparr>))\<lparr>Message := ReplaceAllString re ?msg []\<rparr>"
      using Some refl found by (rule process_unfold)
    show ?thesis
    proof (cases "''Priority'' \<in> set (SubexpNames re)")
      case False
      then have "Priority (process e) = Priority e"
        by (simp add: p store_subpatterns_table [OF r])
      with Some found False show ?thesis by simp
    next
      case True
      have names: "SubexpNames re = [[], ''Priority'']"
        using rule_of_table [OF Some] True by (auto simp: table_names)
      have pri: "Priority (process e) = priorities (ToLower (m ! 1))"
        using True by (simp add: p store_subpatterns_table [OF r])
      have rng: "Priority (process e) \<in> {0..7}"
        using priorities_range [of "ToLower (m ! 1)"] by (simp add: pri)
      have unm: "map_of priority_table (ToLower (m ! 1)) = None \<longrightarrow> Priority (process e) = 0"
        using priorities_unmapped [of "ToLower (m ! 1)"] by (simp add: pri)
      from names pri rng unm have all: "SubexpNames re = [[], ''Priority'']
          \<and> Priority (process e) = priorities (ToLower (m ! 1))
          \<and> Priority (process e) \<in> {0..7}
          \<and> (map_of priority_table (ToLower (m ! 1)) = None \<longrightarrow> Priority (process e) = 0)"
        by (intro conjI)
      show ?thesis unfolding Some found option.case if_P [OF True] by (rule all)
    qed
  qed
qed

text \<open>
  Claim C4, amended. Let the rule of the entry (the rule of its syslog identifier, else
  of its process name) match the message \<open>msg\<close> that the generic rule has left, with
  the leftmost match on the span from \<open>a0\<close> to \<open>a1\<close>. Then normalization removes
  every match of the rule from the message, not the leftmost one alone: the text before
  the leftmost match stays, the result is shorter by that span at least, and for a rule
  that opens with \<^verbatim>\<open>^\<close> the result is the message without the matched prefix. If
  the rule has a group named Priority, the severity becomes what the severity table
  gives for the lower-cased text of that group (0 for a word not in the table);
  otherwise it stays.
\<close>

theorem process_rule_match:
  assumes "rule_of e = Some re"
    and "msg = ReplaceAllString re_generic (Message e) []"
    and "FindStringSubmatch re msg = Some m"
    and "FindStringIndex re msg = Some (a0, a1)"
  shows "Message (process e) = ReplaceAllString re msg []
    \<and> take a0 (Message (process e)) = take a0 msg
    \<and> length (Message (process e)) + (a1 - a0) \<le> length msg
    \<and> (anchored re \<longrightarrow> Message (process e) = drop a1 msg)
    \<and> Priority (process e) =
        (if ''Priority'' \<in> set (SubexpNames re) then priorities (ToLower (m ! 1)) else Priority e)"
proof -
  from assms(4) obtain cs where found: "search re msg 0 = Some (a0, a1, cs)"
    by (auto simp: FindStringIndex_def)
  have r: "rule_of (e\<lparr>Message := msg\<rparr>) = Some re" using assms(1) by (simp add: rule_of_Message)
  have p: "process e = (store_subpatterns re m (e\<lparr>Message := msg\<rparr>))\<lparr>Message := ReplaceAllString re msg []\<rparr>"
    using assms(1-3) by (rule process_unfold)
  have m: "Message (process e) = ReplaceAllString re msg []"
    by (simp add: p)
  have pre: "take a0 (Message (process e)) = take a0 msg"
    using replaceAll_first(1) [OF found] by (simp add: m ReplaceAllString_def)
  have len: "length (Message (process e)) + (a1 - a0) \<le> length msg"
    using replaceAll_first(2) [OF found] by (simp add: m ReplaceAllString_def)
  have anc: "anchored re \<longrightarrow> Message (process e) = drop a1 msg"
    using replaceAll_anchored [OF _ found] by (simp add: m ReplaceAllString_def)
  have pri: "Priority (process e) =
        (if ''Priority'' \<in> set (SubexpNames re) then priorities (ToLower (m ! 1)) else Priority e)"
    by (simp add: p store_subpatterns_table [OF r])
  from m pre len anc pri show ?thesis by blast
qed

text \<open>
  The theorem of claim C4 at a line of \<^verbatim>\<open>mysqld\<close>.
\<close>

theorem process_rule_match_witness:
  "rule_of (zero_entry\<lparr>Comm := ''mysqld'', Priority := 6, Message := ''123 [Warning] disk is slow''\<rparr>) = Some re_mysqld
   \<and> FindStringIndex re_mysqld ''123 [Warning] disk is slow'' = Some (0, 14)
   \<and> Message (process (zero_entry\<lparr>Comm := ''mysqld'', Priority := 6, Message := ''123 [Warning] disk is slow''\<rparr>)) = ''disk is slow''
   \<and> Priority (process (zero_entry\<lparr>Comm := ''mysqld'', Priority := 6, Message := ''123 [Warning] disk is slow''\<rparr>)) = 4"
proof -
  let ?e = "zero_entry\<lparr>Comm := ''mysqld'', Priority := 6, Message := ''123 [Warning] disk is slow''\<rparr>"
  let ?msg = "''123 [Warning] disk is slow''"
  have h1: "rule_of ?e = Some re_mysqld" by code_simp
  have h2: "?msg = ReplaceAllString re_generic (Message ?e) []" by code_simp
  have h3: "FindStringSubmatch re_mysqld ?msg = Some [''123 [Warning] '', ''Warning'']" by code_simp
  have h4: "FindStringIndex re_mysqld ?msg = Some (0, 14)" by code_simp
  have lo: "priorities (ToLower ''Warning'') = 4" by code_simp
  note inst = process_rule_match [OF h1 h2 h3 h4]
  from inst have "anchored re_mysqld \<longrightarrow> Message (process ?e) = drop 14 ?msg" by blast
  then have msg: "Message (process ?e) = ''disk is slow''" by (simp add: table_anchored)
  from inst have "Priority (process ?e) =
      (if ''Priority'' \<in> set (SubexpNames re_mysqld)
       then priorities (ToLower ([''123 [Warning] '', ''Warning''] ! 1)) else Priority ?e)"
    by blast
  then have pri: "Priority (process ?e) = 4" by (simp add: table_names lo)
  from h1 h4 msg pri show ?thesis by blast
qed

text \<open>
  Claim C4 as it is stated fails: for \<^verbatim>\<open>nginx\<close> and the message
  \<^verbatim>\<open>[error] a [warn] b\<close> the matched span is the first 8 bytes, and removing it
  once would leave \<^verbatim>\<open>a [warn] b\<close>; normalization leaves \<^verbatim>\<open>a b\<close>.
\<close>

theorem process_removes_every_match:
  "rule_of (zero_entry\<lparr>Syslog_identifier := ''nginx'', Message := ''[error] a [warn] b''\<rparr>) = Some re_nginx
   \<and> FindStringIndex re_nginx ''[error] a [warn] b'' = Some (0, 8)
   \<and> take 0 ''[error] a [warn] b'' @ drop 8 ''[error] a [warn] b'' = ''a [warn] b''
   \<and> Message (process (zero_entry\<lparr>Syslog_identifier := ''nginx'', Message := ''[error] a [warn] b''\<rparr>)) = ''a b''"
  by code_simp

text \<open>
  Claim C1. On the line of the example the severity becomes 3, but the short message
  keeps its date and time: the generic rule does not match it, and the rule of
  \<^verbatim>\<open>nginx\<close> removes the bracketed level only.
\<close>

theorem process_nginx_example:
  "Message (process (zero_entry\<lparr>Message := ''2024-01-02 03:04:05 [error] disk full'',
      Priority := 6, Syslog_identifier := ''nginx''\<rparr>)) = ''2024-01-02 03:04:05 disk full''
   \<and> Priority (process (zero_entry\<lparr>Message := ''2024-01-02 03:04:05 [error] disk full'',
      Priority := 6, Syslog_identifier := ''nginx''\<rparr>)) = 3"
  by code_simp

text \<open>
  Claim C2. A message that begins with a date and a time keeps them through
  normalization, with or without a fraction; the generic rule removes the prefix only
  when the bytes \<^verbatim>\<open>{0-3}\<close> and a blank follow the seconds and one more byte.
\<close>

theorem process_keeps_datetime_prefix:
  "Message (process (zero_entry\<lparr>Message := ''2024-01-02 03:04:05 started''\<rparr>))
     = ''2024-01-02 03:04:05 started''
   \<and> Message (process (zero_entry\<lparr>Message := ''2024/01/02 03:04:05,123 started''\<rparr>))
     = ''2024/01/02 03:04:05,123 started''
   \<and> Message (process (zero_entry\<lparr>Message := ''2024-01-02 03:04:05,{0-3} started''\<rparr>))
     = ''started''"
  by code_simp

text \<open>
  Claim C3 as it is stated fails: a line parsed with the severity 42, with no rule for
  its facility, has the severity 42 after normalization.
\<close>

theorem process_keeps_severity_42:
  "Priority (process (zero_entry\<lparr>Priority := 42, Message := ''started''\<rparr>)) = 42"
  by code_simp

text \<open>
  The theorem of claim C3 at three lines: one of \<^verbatim>\<open>java\<close> with the word \<^verbatim>\<open>FATAL\<close>,
  which the table does not hold, one of \<^verbatim>\<open>mysqld\<close> with the word \<^verbatim>\<open>Warning\<close>, and one
  of a facility without a rule, parsed with the severity 9.
\<close>

theorem process_severity_witness:
  "map_of priority_table (ToLower ''FATAL'') = None
   \<and> Priority (process (zero_entry\<lparr>Priority := 6, Comm := ''java'', Message := ''FATAL: out of memory''\<rparr>)) = 0
   \<and> Priority (process (zero_entry\<lparr>Priority := 6, Comm := ''mysqld'', Message := ''123 [Warning] disk is slow''\<rparr>)) = 4
   \<and> Priority (process (zero_entry\<lparr>Priority := 9, Comm := ''cron'', Message := ''job done''\<rparr>)) = 9"
proof -
  let ?j = "zero_entry\<lparr>Priority := 6, Comm := ''java'', Message := ''FATAL: out of memory''\<rparr>"
  let ?m = "zero_entry\<lparr>Priority := 6, Comm := ''mysqld'', Message := ''123 [Warning] disk is slow''\<rparr>"
  let ?c = "zero_entry\<lparr>Priority := 9, Comm := ''cron'', Message := ''job done''\<rparr>"
  have h: "map_of priority_table (ToLower ''FATAL'') = None" by code_simp
  have j1: "rule_of ?j = Some re_java" by code_simp
  have j2: "FindStringSubmatch re_java (ReplaceAllString re_generic (Message ?j) [])
      = Some [''FATAL: '', ''FATAL'']" by code_simp
  have j3: "''Priority'' \<in> set (SubexpNames re_java)" by (simp add: table_names)
  have "SubexpNames re_java = [[], ''Priority'']
      \<and> Priority (process ?j) = priorities (ToLower ([''FATAL: '', ''FATAL''] ! 1))
      \<and> Priority (process ?j) \<in> {0..7}
      \<and> (map_of priority_table (ToLower ([''FATAL: '', ''FATAL''] ! 1)) = None
          \<longrightarrow> Priority (process ?j) = 0)"
    by (rule process_severity [of ?j, unfolded j1 option.case j2 if_P [OF j3]])
  then have "map_of priority_table (ToLower ([''FATAL: '', ''FATAL''] ! 1)) = None
      \<longrightarrow> Priority (process ?j) = 0"
    by (rule conjunct2 [THEN conjunct2, THEN conjunct2])
  then have j: "Priority (process ?j) = 0" using h by simp
  have m1: "rule_of ?m = Some re_mysqld" by code_simp
  have m2: "FindStringSubmatch re_mysqld (ReplaceAllString re_generic (Message ?m) [])
      = Some [''123 [Warning] '', ''Warning'']" by code_simp
  have m3: "''Priority'' \<in> set (SubexpNames re_mysqld)" by (simp add: table_names)
  have m4: "priorities (ToLower ''Warning'') = 4" by code_simp
  have "SubexpNames re_mysqld = [[], ''Priority'']
      \<and> Priority (process ?m) = priorities (ToLower ([''123 [Warning] '', ''Warning''] ! 1))
      \<and> Priority (process ?m) \<in> {0..7}
      \<and> (map_of priority_table (ToLower ([''123 [Warning] '', ''Warning''] ! 1)) = None
          \<longrightarrow> Priority (process ?m) = 0)"
    by (rule process_severity [of ?m, unfolded m1 option.case m2 if_P [OF m3]])
  then have "Priority (process ?m) = priorities (ToLower ([''123 [Warning] '', ''Warning''] ! 1))"
    by (rule conjunct2 [THEN conjunct1])
  then have m: "Priority (process ?m) = 4" using m4 by simp
  have c1: "rule_of ?c = None" by code_simp
  have "Priority (process ?c) = Priority ?c"
    by (rule process_severity [of ?c, unfolded c1 option.case])
  then have c: "Priority (process ?c) = 9" by simp
  from h j m c show ?thesis by (intro conjI)
qed

subsection \<open>What the generic rule matches\<close>

lemma concat_map_concat:
  "concat (map f (concat xss)) = concat (map (\<lambda>xs. concat (map f xs)) xss)"
  by (induction xss) simp_all

lemma concat_map_single: "concat (map (\<lambda>u. [u]) xs) = xs"
  by (induction xs) simp_all

lemma concat_map_Eps: "concat (map (run Eps s) xs) = xs"
  by (induction xs) simp_all

lemma run_cat_Cons: "run (cat (r # rs)) s t = concat (map (run (cat rs) s) (run r s t))"
  by (cases rs) (simp_all add: concat_map_Eps)

lemma run_cat_append:
  "run (cat (xs @ ys)) s t = concat (map (run (cat ys) s) (run (cat xs) s t))"
proof (induction xs arbitrary: t)
  case Nil
  show ?case by simp
next
  case (Cons r rs)
  have "run (cat ((r # rs) @ ys)) s t = concat (map (run (cat (rs @ ys)) s) (run r s t))"
    by (simp add: run_cat_Cons)
  also have "\<dots> = concat (map (\<lambda>u. concat (map (run (cat ys) s) (run (cat rs) s u))) (run r s t))"
  proof -
    have "run (cat (rs @ ys)) s = (\<lambda>u. concat (map (run (cat ys) s) (run (cat rs) s u)))"
      by (rule ext) (rule Cons.IH)
    then show ?thesis by (simp only:)
  qed
  also have "\<dots> = concat (map (run (cat ys) s) (concat (map (run (cat rs) s) (run r s t))))"
    by (simp add: concat_map_concat comp_def)
  also have "\<dots> = concat (map (run (cat ys) s) (run (cat (r # rs)) s t))"
    by (simp add: run_cat_Cons)
  finally show ?case .
qed

lemma run_lits:
  "t' \<in> set (run (cat (lits w)) s t) \<Longrightarrow>
   fst t' = fst t + length w \<and> take (length w) (drop (fst t) s) = w"
proof (induction w arbitrary: t)
  case Nil
  then show ?case by (simp add: lits_def)
next
  case (Cons c cs)
  from Cons.prems have "t' \<in> set (concat (map (run (cat (lits cs)) s) (run (Lit c) s t)))"
    by (simp add: lits_def run_cat_Cons)
  then have here: "fst t < length s" "s ! fst t = c"
    and rest: "t' \<in> set (run (cat (lits cs)) s (Suc (fst t), snd t))"
    by (auto split: if_splits)
  from Cons.IH [OF rest] have ih: "fst t' = Suc (fst t) + length cs"
    "take (length cs) (drop (Suc (fst t)) s) = cs" by simp_all
  have "drop (fst t) s = c # drop (Suc (fst t)) s"
    using here by (simp add: Cons_nth_drop_Suc [symmetric])
  with ih show ?case by simp
qed

lemma run_generic_braces:
  assumes "t' \<in> set (run re_generic s t)"
  shows "CHR ''{'' \<in> set s"
proof -
  define front where "front = [Bol] @ lits ''20'' @ [digit, digit, one_of ''/-'',
     Class [(CHR ''0'', CHR ''1'')], digit, one_of ''/-'', one_of ''0123'', digit, Lit CHR '' '',
     Opt (Class [(CHR ''0'', CHR ''2'')]), digit, Lit CHR '':'',
     Class [(CHR ''0'', CHR ''5'')], digit, Lit CHR '':'',
     Class [(CHR ''0'', CHR ''5'')], digit,
     Class [(CHR '','', CHR '',''), (CHR ''0'', CHR ''9'')]]"
  have eq: "re_generic = cat (front @ lits ''{0-3} '')"
    unfolding re_generic_def front_def by (simp only: append_assoc)
  have "t' \<in> set (run (cat (front @ lits ''{0-3} '')) s t)"
    using assms by (simp only: eq [symmetric])
  then have "t' \<in> set (concat (map (run (cat (lits ''{0-3} '')) s) (run (cat front) s t)))"
    by (simp only: run_cat_append)
  then obtain u where "t' \<in> set (run (cat (lits ''{0-3} '')) s u)" by auto
  then have "take (length ''{0-3} '') (drop (fst u) s) = ''{0-3} ''" by (rule run_lits [THEN conjunct2])
  then have "CHR ''{'' \<in> set (take (length ''{0-3} '') (drop (fst u) s))" by simp
  then show ?thesis by (meson in_set_dropD in_set_takeD)
qed

lemma search_generic_braces:
  "search re_generic s p = Some r \<Longrightarrow> CHR ''{'' \<in> set s"
proof (induction re_generic s p rule: search.induct)
  case (1 s p)
  show ?case
  proof (cases "run re_generic s (p, Map.empty)")
    case Nil
    with "1.prems" have "\<not> length s < p" "search re_generic s (Suc p) = Some r"
      by (auto simp: search.simps [of re_generic s p] split: if_splits)
    with "1.hyps" Nil show ?thesis by simp
  next
    case (Cons t ts)
    then have "t \<in> set (run re_generic s (p, Map.empty))" by simp
    then show ?thesis by (rule run_generic_braces)
  qed
qed

text \<open>
  The generic rule and the brace. Every match of the generic rule ends in the bytes
  \<^verbatim>\<open>{0-3}\<close> and a blank, so a message that holds no brace is left as it is by
  the first step of normalization, and by the whole of it when the facility has no
  rule.
\<close>

theorem generic_rule_needs_braces:
  assumes "CHR ''{'' \<notin> set (Message e)"
  shows "ReplaceAllString re_generic (Message e) [] = Message e
    \<and> (rule_of e = None \<longrightarrow> process e = e)"
proof -
  have none: "search re_generic (Message e) 0 = None"
    using assms search_generic_braces [of "Message e" 0] by (cases "search re_generic (Message e) 0") auto
  then have keep: "ReplaceAllString re_generic (Message e) [] = Message e"
    by (simp add: ReplaceAllString_def replaceAll.simps [of re_generic "Message e" "[]" 0 0])
  have "rule_of e = None \<longrightarrow> process e = e"
    by (simp add: process_def keep Let_def rule_of_Message)
  with keep show ?thesis by (rule conjI)
qed

text \<open>
  The theorem on the generic rule at a message with a date, a time and a fraction.
\<close>

theorem generic_rule_needs_braces_witness:
  "CHR ''{'' \<notin> set ''2024-01-02 03:04:05,123 started''
   \<and> rule_of (zero_entry\<lparr>Message := ''2024-01-02 03:04:05,123 started''\<rparr>) = None
   \<and> process (zero_entry\<lparr>Message := ''2024-01-02 03:04:05,123 started''\<rparr>)
      = zero_entry\<lparr>Message := ''2024-01-02 03:04:05,123 started''\<rparr>"
proof -
  let ?e = "zero_entry\<lparr>Message := ''2024-01-02 03:04:05,123 started''\<rparr>"
  have h: "CHR ''{'' \<notin> set (Message ?e)" by simp
  have r: "rule_of ?e = None" by code_simp
  from generic_rule_needs_braces [OF h] r have "process ?e = ?e" by blast
  with h r show ?thesis by simp
qed

section \<open>Properties of the envelope\<close>

lemma Split_nonempty: "Split s sep \<noteq> []"
  by (induction s) (auto split: list.splits)

lemma Split_hd: "hd (Split s sep) = takeWhile (\<lambda>c. c \<noteq> sep) s"
  by (induction s) (auto simp: Split_nonempty split: list.splits)

lemma isJsonMessage_spec: "isJsonMessage e \<Longrightarrow> spec_json_shaped (Message e)"
proof -
  assume a: "isJsonMessage e"
  then obtain c d cs where m: "Message e = c # d # cs"
    by (cases "Message e"; cases "tl (Message e)") (auto simp: isJsonMessage_def)
  with a show ?thesis by (auto simp: isJsonMessage_def spec_json_shaped_def)
qed

lemma isJsonMessage_takeWhile:
  assumes "\<not> isJsonMessage e"
  shows "\<not> isJsonMessage (e\<lparr>FullMessage := f, Message := takeWhile P (Message e)\<rparr>)"
proof
  assume a: "isJsonMessage (e\<lparr>FullMessage := f, Message := takeWhile P (Message e)\<rparr>)"
  then have len: "64 < length (takeWhile P (Message e))" by (simp add: isJsonMessage_def)
  have le: "length (takeWhile P (Message e)) \<le> length (Message e)" by (rule length_takeWhile_le)
  from len have l0: "0 < length (takeWhile P (Message e))"
    and l1: "1 < length (takeWhile P (Message e))"
    by linarith+
  have "takeWhile P (Message e) ! 0 = Message e ! 0"
    using l0 by (rule takeWhile_nth)
  moreover have "takeWhile P (Message e) ! 1 = Message e ! 1"
    using l1 by (rule takeWhile_nth)
  ultimately have "takeWhile P (Message e) ! 0 = Message e ! 0"
    "takeWhile P (Message e) ! 1 = Message e ! 1" by blast+
  with a len le assms show False by (simp add: isJsonMessage_def)
qed

text \<open>
  Claim C5, amended. Let the message be JSON-shaped as the program tests it: more than
  64 bytes, the first byte a brace and the second a quote, no blank before them. If
  the message decodes to an object whose members \<^verbatim>\<open>Message\<close> and \<^verbatim>\<open>FullMessage\<close>
  are strings, the envelope carries them as its short and its full message, its map of
  attributes holds neither key, every other member of the object is in the map, and the
  keys the object does not name keep the values of the entry.
\<close>

theorem toGelf_json_members:
  assumes "isJsonMessage e"
    and "un (Message e) = Decoded obj"
    and "obj ''Message'' = Some (JString m)"
    and "obj ''FullMessage'' = Some (JString f)"
  shows "\<exists>e' g. toGelf un e = Inr (e', g)
    \<and> Short g = m \<and> Full g = f
    \<and> Extra g ''Message'' = None \<and> Extra g ''FullMessage'' = None
    \<and> (\<forall>k v. k \<noteq> ''Message'' \<longrightarrow> k \<noteq> ''FullMessage'' \<longrightarrow> obj k = Some v \<longrightarrow> Extra g k = Some v)
    \<and> (\<forall>k. obj k = None \<longrightarrow> Extra g k = fixed_extra e k)"
proof -
  let ?x = "fixed_extra e ++ obj"
  have 1: "take_Message (e, ?x) = Inr (e\<lparr>Message := m\<rparr>, ?x(''Message'' := None))"
    using assms(3) by (simp add: take_Message_def)
  have 2: "take_FullMessage (e\<lparr>Message := m\<rparr>, ?x(''Message'' := None))
      = Inr (e\<lparr>Message := m, FullMessage := f\<rparr>, ?x(''Message'' := None, ''FullMessage'' := None))"
    using assms(4) by (simp add: take_FullMessage_def)
  have "toGelf un e = Inr (e\<lparr>Message := m, FullMessage := f\<rparr>,
      envelope (e\<lparr>Message := m, FullMessage := f\<rparr>)
        (if Syslog_identifier e = [] then Comm e else Syslog_identifier e)
        (?x(''Message'' := None, ''FullMessage'' := None)))"
    using assms(1,2) by (simp add: toGelf_def Let_def 1 2)
  moreover have "\<forall>k. obj k = None \<longrightarrow> ?x k = fixed_extra e k"
    by (simp add: map_add_def)
  moreover have "\<forall>k v. obj k = Some v \<longrightarrow> ?x k = Some v"
    by (simp add: map_add_def)
  ultimately show ?thesis using assms(3,4)
    by (auto simp: envelope_def)
qed

lemma toGelf_returns: "\<not> isJsonMessage e \<Longrightarrow> \<exists>e' g. toGelf un e = Inr (e', g)"
  by (simp add: toGelf_def Let_def)

lemma fixed_extra_reserved:
  "fixed_extra e ''Message'' = None" "fixed_extra e ''FullMessage'' = None"
  by (simp_all add: fixed_extra_def)

lemma toGelf_failed:
  assumes "isJsonMessage e" "un (Message e) = Failed stored"
  shows "toGelf un e = Inr (e, envelope e
    (if Syslog_identifier e = [] then Comm e else Syslog_identifier e) (fixed_extra e ++ stored))"
  using assms by (simp add: toGelf_def Let_def)

lemma toGelf_decoded:
  assumes "isJsonMessage e" "un (Message e) = Decoded obj"
  shows "toGelf un e =
    (case string_member (obj ''Message'') (Message e) of
       Inl p \<Rightarrow> Inl p
     | Inr m \<Rightarrow>
         (case string_member (obj ''FullMessage'') (FullMessage e) of
            Inl p \<Rightarrow> Inl p
          | Inr f \<Rightarrow>
              Inr (e\<lparr>Message := m, FullMessage := f\<rparr>,
                   envelope (e\<lparr>Message := m, FullMessage := f\<rparr>)
                     (if Syslog_identifier e = [] then Comm e else Syslog_identifier e)
                     ((fixed_extra e ++ obj)(''Message'' := None, ''FullMessage'' := None)))))"
proof -
  let ?x = "fixed_extra e ++ obj"
  have xm: "?x ''Message'' = obj ''Message''"
    by (simp add: map_add_def fixed_extra_reserved split: option.splits)
  have xf: "?x ''FullMessage'' = obj ''FullMessage''"
    by (simp add: map_add_def fixed_extra_reserved split: option.splits)
  have absent: "y k = None \<Longrightarrow> y(k := None) = y" for y :: "string \<rightharpoonup> json" and k
    by auto
  have tm: "take_Message (e1, y) =
      (case string_member (y ''Message'') (Message e1) of
         Inl p \<Rightarrow> Inl p
       | Inr m \<Rightarrow> Inr (e1\<lparr>Message := m\<rparr>, y(''Message'' := None)))"
    for e1 and y :: "string \<rightharpoonup> json"
  proof (cases "y ''Message''")
    case None
    then have "y(''Message'' := None) = y" by (rule absent)
    with None show ?thesis by (simp add: take_Message_def)
  next
    case (Some j)
    then show ?thesis by (cases j) (simp_all add: take_Message_def)
  qed
  have tf: "take_FullMessage (e1, y) =
      (case string_member (y ''FullMessage'') (FullMessage e1) of
         Inl p \<Rightarrow> Inl p
       | Inr f \<Rightarrow> Inr (e1\<lparr>FullMessage := f\<rparr>, y(''FullMessage'' := None)))"
    for e1 and y :: "string \<rightharpoonup> json"
  proof (cases "y ''FullMessage''")
    case None
    then have "y(''FullMessage'' := None) = y" by (rule absent)
    with None show ?thesis by (simp add: take_FullMessage_def)
  next
    case (Some j)
    then show ?thesis by (cases j) (simp_all add: take_FullMessage_def)
  qed
  have "toGelf un e =
      (case take_Message (e, ?x) of
         Inl p \<Rightarrow> Inl p
       | Inr ex \<Rightarrow>
           (case take_FullMessage ex of
              Inl p \<Rightarrow> Inl p
            | Inr ex' \<Rightarrow> Inr (fst ex', envelope (fst ex')
                (if Syslog_identifier e = [] then Comm e else Syslog_identifier e) (snd ex'))))"
    using assms by (simp add: toGelf_def Let_def)
  also have "\<dots> =
    (case string_member (obj ''Message'') (Message e) of
       Inl p \<Rightarrow> Inl p
     | Inr m \<Rightarrow>
         (case string_member (obj ''FullMessage'') (FullMessage e) of
            Inl p \<Rightarrow> Inl p
          | Inr f \<Rightarrow>
              Inr (e\<lparr>Message := m, FullMessage := f\<rparr>,
                   envelope (e\<lparr>Message := m, FullMessage := f\<rparr>)
                     (if Syslog_identifier e = [] then Comm e else Syslog_identifier e)
                     ((fixed_extra e ++ obj)(''Message'' := None, ''FullMessage'' := None)))))"
    by (simp add: tm tf xm xf split: sum.splits)
  finally show ?thesis .
qed

text \<open>
  Claim C6, amended. For an entry whose message is not JSON-shaped (as the program
  tests it) the envelope is built and its short message holds no line break: when the
  message holds one, the short message is the text before the first and the full
  message is the whole message; when it holds none, the short and the full message
  are those of the entry. A JSON-shaped message is never split. When it does not
  decode, the short and the full message are those of the entry. When it decodes, each
  of the members \<^verbatim>\<open>Message\<close> and \<^verbatim>\<open>FullMessage\<close> replaces the short or the full message
  if it is a string, leaves it as it is if the object has no such member, and stops the
  program in the type assertion, with no envelope built, if it is anything else.
\<close>

theorem toGelf_line_break:
  "(\<not> isJsonMessage e \<longrightarrow>
      (\<exists>e' g. toGelf un e = Inr (e', g)
        \<and> newline \<notin> set (Short g)
        \<and> (newline \<in> set (Message e) \<longrightarrow>
             Short g = takeWhile (\<lambda>c. c \<noteq> newline) (Message e) \<and> Full g = Message e)
        \<and> (newline \<notin> set (Message e) \<longrightarrow> Short g = Message e \<and> Full g = FullMessage e)))
   \<and> (isJsonMessage e \<longrightarrow>
      (case un (Message e) of
         Failed stored \<Rightarrow>
           (\<exists>g. toGelf un e = Inr (e, g) \<and> Short g = Message e \<and> Full g = FullMessage e)
       | Decoded obj \<Rightarrow>
           (case string_member (obj ''Message'') (Message e) of
              Inl p \<Rightarrow> toGelf un e = Inl p
            | Inr m \<Rightarrow>
                (case string_member (obj ''FullMessage'') (FullMessage e) of
                   Inl p \<Rightarrow> toGelf un e = Inl p
                 | Inr f \<Rightarrow> (\<exists>e' g. toGelf un e = Inr (e', g) \<and> Short g = m \<and> Full g = f)))))"
proof (intro conjI impI)
  assume nj: "\<not> isJsonMessage e"
  show "\<exists>e' g. toGelf un e = Inr (e', g)
        \<and> newline \<notin> set (Short g)
        \<and> (newline \<in> set (Message e) \<longrightarrow>
             Short g = takeWhile (\<lambda>c. c \<noteq> newline) (Message e) \<and> Full g = Message e)
        \<and> (newline \<notin> set (Message e) \<longrightarrow> Short g = Message e \<and> Full g = FullMessage e)"
  proof (cases "newline \<in> set (Message e)")
    case True
    have "newline \<notin> set (takeWhile (\<lambda>c. c \<noteq> newline) (Message e))"
      by (auto dest: set_takeWhileD)
    with True nj show ?thesis
      by (simp add: toGelf_def Let_def envelope_def Split_hd)
  next
    case False
    with nj show ?thesis by (simp add: toGelf_def Let_def envelope_def)
  qed
next
  assume j: "isJsonMessage e"
  show "case un (Message e) of
         Failed stored \<Rightarrow>
           (\<exists>g. toGelf un e = Inr (e, g) \<and> Short g = Message e \<and> Full g = FullMessage e)
       | Decoded obj \<Rightarrow>
           (case string_member (obj ''Message'') (Message e) of
              Inl p \<Rightarrow> toGelf un e = Inl p
            | Inr m \<Rightarrow>
                (case string_member (obj ''FullMessage'') (FullMessage e) of
                   Inl p \<Rightarrow> toGelf un e = Inl p
                 | Inr f \<Rightarrow> (\<exists>e' g. toGelf un e = Inr (e', g) \<and> Short g = m \<and> Full g = f)))"
  proof (cases "un (Message e)")
    case (Failed stored)
    from toGelf_failed [where un = un and e = e, OF j Failed] show ?thesis
      by (simp add: Failed envelope_def)
  next
    case (Decoded obj)
    from toGelf_decoded [where un = un and e = e, OF j Decoded] show ?thesis
      by (simp add: Decoded envelope_def split: sum.splits)
  qed
qed

text \<open>
  The theorem of claim C5 at a message with four members.
\<close>

theorem toGelf_json_members_witness:
  "isJsonMessage (zero_entry\<lparr>Message := json_text, Boot_id := ''b1''\<rparr>)
   \<and> map_sum id (\<lambda>r. (Short (snd r), Full (snd r),
         map (Extra (snd r)) [''Message'', ''FullMessage'', ''user'', ''code'', ''Boot_id'']))
       (toGelf flat_unmarshal (zero_entry\<lparr>Message := json_text, Boot_id := ''b1''\<rparr>))
     = Inr (''payment failed'', ''payment failed: card declined'',
         [None, None, Some (JString ''bob''), Some (JNumber ''402''), Some (JString ''b1'')])"
proof -
  let ?e = "zero_entry\<lparr>Message := json_text, Boot_id := ''b1''\<rparr>"
  have h1: "isJsonMessage ?e" by code_simp
  have m: "Message ?e = json_text" by simp
  have dec: "case flat_unmarshal json_text of
      Failed stored \<Rightarrow> False
    | Decoded obj \<Rightarrow> obj ''Message'' = Some (JString ''payment failed'')
        \<and> obj ''FullMessage'' = Some (JString ''payment failed: card declined'')
        \<and> obj ''user'' = Some (JString ''bob'') \<and> obj ''code'' = Some (JNumber ''402'')
        \<and> obj ''Boot_id'' = None"
    by code_simp
  then obtain obj where h2: "flat_unmarshal (Message ?e) = Decoded obj"
    and h3: "obj ''Message'' = Some (JString ''payment failed'')"
    and h4: "obj ''FullMessage'' = Some (JString ''payment failed: card declined'')"
    and h5: "obj ''user'' = Some (JString ''bob'')" "obj ''code'' = Some (JNumber ''402'')"
      "obj ''Boot_id'' = None"
    unfolding m by (cases "flat_unmarshal json_text") simp_all
  have fx: "fixed_extra ?e ''Boot_id'' = Some (JString ''b1'')" by code_simp
  from toGelf_json_members [where un = flat_unmarshal and e = ?e, OF h1 h2 h3 h4]
  obtain e' where "\<exists>g. toGelf flat_unmarshal ?e = Inr (e', g)
    \<and> Short g = ''payment failed'' \<and> Full g = ''payment failed: card declined''
    \<and> Extra g ''Message'' = None \<and> Extra g ''FullMessage'' = None
    \<and> (\<forall>k v. k \<noteq> ''Message'' \<longrightarrow> k \<noteq> ''FullMessage'' \<longrightarrow> obj k = Some v \<longrightarrow> Extra g k = Some v)
    \<and> (\<forall>k. obj k = None \<longrightarrow> Extra g k = fixed_extra ?e k)" ..
  then obtain g where g: "toGelf flat_unmarshal ?e = Inr (e', g)
    \<and> Short g = ''payment failed'' \<and> Full g = ''payment failed: card declined''
    \<and> Extra g ''Message'' = None \<and> Extra g ''FullMessage'' = None
    \<and> (\<forall>k v. k \<noteq> ''Message'' \<longrightarrow> k \<noteq> ''FullMessage'' \<longrightarrow> obj k = Some v \<longrightarrow> Extra g k = Some v)
    \<and> (\<forall>k. obj k = None \<longrightarrow> Extra g k = fixed_extra ?e k)" ..
  from g h5(1) have u: "Extra g ''user'' = Some (JString ''bob'')" by simp
  from g h5(2) have c: "Extra g ''code'' = Some (JNumber ''402'')" by simp
  from g h5(3) fx have b: "Extra g ''Boot_id'' = Some (JString ''b1'')" by simp
  from g u c b have "map_sum id (\<lambda>r. (Short (snd r), Full (snd r),
         map (Extra (snd r)) [''Message'', ''FullMessage'', ''user'', ''code'', ''Boot_id'']))
       (toGelf flat_unmarshal ?e)
     = Inr (''payment failed'', ''payment failed: card declined'',
         [None, None, Some (JString ''bob''), Some (JNumber ''402''), Some (JString ''b1'')])"
    by simp
  with h1 show ?thesis by (rule conjI)
qed

text \<open>
  Claim C5 as it is stated fails: the same object after one blank is JSON-shaped in
  the words of the specification and decodes to the two members, but the program
  tests the first two bytes, so the whole text is the short message, the full message
  is empty and no member reaches the attributes.
\<close>

theorem toGelf_leading_blank:
  "spec_json_shaped (CHR '' '' # json_text)
   \<and> (case flat_unmarshal (CHR '' '' # json_text) of
        Failed stored \<Rightarrow> None
      | Decoded obj \<Rightarrow> Some (obj ''Message'', obj ''FullMessage''))
     = Some (Some (JString ''payment failed''), Some (JString ''payment failed: card declined''))
   \<and> map_sum id (\<lambda>r. (Short (snd r), Full (snd r), Extra (snd r) ''user''))
       (toGelf flat_unmarshal (zero_entry\<lparr>Message := CHR '' '' # json_text\<rparr>))
     = Inr (CHR '' '' # json_text, [], None)"
proof (intro conjI)
  show "spec_json_shaped (CHR '' '' # json_text)" by code_simp
  show "(case flat_unmarshal (CHR '' '' # json_text) of
        Failed stored \<Rightarrow> None
      | Decoded obj \<Rightarrow> Some (obj ''Message'', obj ''FullMessage''))
     = Some (Some (JString ''payment failed''), Some (JString ''payment failed: card declined''))"
    by code_simp
  show "map_sum id (\<lambda>r. (Short (snd r), Full (snd r), Extra (snd r) ''user''))
       (toGelf flat_unmarshal (zero_entry\<lparr>Message := CHR '' '' # json_text\<rparr>))
     = Inr (CHR '' '' # json_text, [], None)"
    by code_simp
qed

text \<open>
  The theorem of claim C6 at four messages: one of two lines that is not JSON-shaped;
  a JSON object with both members; a JSON-shaped text that does not decode; and a JSON
  object whose member \<^verbatim>\<open>Message\<close> is null, on which no envelope is built.
\<close>

theorem toGelf_line_break_witness:
  "\<not> isJsonMessage (zero_entry\<lparr>Message := ''Traceback:'' @ [newline] @ ''  File main.py''\<rparr>)
   \<and> newline \<in> set (''Traceback:'' @ [newline] @ ''  File main.py'')
   \<and> map_sum id (\<lambda>r. (Short (snd r), Full (snd r)))
       (toGelf flat_unmarshal (zero_entry\<lparr>Message := ''Traceback:'' @ [newline] @ ''  File main.py''\<rparr>))
     = Inr (''Traceback:'', ''Traceback:'' @ [newline] @ ''  File main.py'')
   \<and> isJsonMessage (zero_entry\<lparr>Message := json_text\<rparr>)
   \<and> map_sum id (\<lambda>r. (Short (snd r), Full (snd r)))
       (toGelf flat_unmarshal (zero_entry\<lparr>Message := json_text\<rparr>))
     = Inr (''payment failed'', ''payment failed: card declined'')
   \<and> isJsonMessage (zero_entry\<lparr>Message := undecodable_text, FullMessage := ''kept''\<rparr>)
   \<and> map_sum id (\<lambda>r. (Short (snd r), Full (snd r)))
       (toGelf flat_unmarshal (zero_entry\<lparr>Message := undecodable_text, FullMessage := ''kept''\<rparr>))
     = Inr (undecodable_text, ''kept'')
   \<and> isJsonMessage (zero_entry\<lparr>Message := inner_text\<rparr>)
   \<and> toGelf flat_unmarshal (zero_entry\<lparr>Message := inner_text\<rparr>) = Inl TypeAssertion"
proof -
  let ?e = "zero_entry\<lparr>Message := ''Traceback:'' @ [newline] @ ''  File main.py''\<rparr>"
  let ?j = "zero_entry\<lparr>Message := json_text\<rparr>"
  let ?u = "zero_entry\<lparr>Message := undecodable_text, FullMessage := ''kept''\<rparr>"
  let ?n = "zero_entry\<lparr>Message := inner_text\<rparr>"

  have h1: "\<not> isJsonMessage ?e" by code_simp
  have h2: "newline \<in> set (Message ?e)" by simp
  have h2': "newline \<in> set (''Traceback:'' @ [newline] @ ''  File main.py'')" by simp
  have "\<exists>e' g. toGelf flat_unmarshal ?e = Inr (e', g)
        \<and> newline \<notin> set (Short g)
        \<and> (newline \<in> set (Message ?e) \<longrightarrow>
             Short g = takeWhile (\<lambda>c. c \<noteq> newline) (Message ?e) \<and> Full g = Message ?e)
        \<and> (newline \<notin> set (Message ?e) \<longrightarrow> Short g = Message ?e \<and> Full g = FullMessage ?e)"
    using h1 by (rule toGelf_line_break [where un = flat_unmarshal and e = ?e, THEN conjunct1, THEN mp])
  then obtain e' where "\<exists>g. toGelf flat_unmarshal ?e = Inr (e', g)
        \<and> newline \<notin> set (Short g)
        \<and> (newline \<in> set (Message ?e) \<longrightarrow>
             Short g = takeWhile (\<lambda>c. c \<noteq> newline) (Message ?e) \<and> Full g = Message ?e)
        \<and> (newline \<notin> set (Message ?e) \<longrightarrow> Short g = Message ?e \<and> Full g = FullMessage ?e)" ..
  then obtain g where g: "toGelf flat_unmarshal ?e = Inr (e', g)
        \<and> newline \<notin> set (Short g)
        \<and> (newline \<in> set (Message ?e) \<longrightarrow>
             Short g = takeWhile (\<lambda>c. c \<noteq> newline) (Message ?e) \<and> Full g = Message ?e)
        \<and> (newline \<notin> set (Message ?e) \<longrightarrow> Short g = Message ?e \<and> Full g = FullMessage ?e)" ..
  with h2 have "toGelf flat_unmarshal ?e = Inr (e', g)"
    "Short g = takeWhile (\<lambda>c. c \<noteq> newline) (Message ?e)" "Full g = Message ?e"
    by simp_all
  then have c1: "map_sum id (\<lambda>r. (Short (snd r), Full (snd r))) (toGelf flat_unmarshal ?e)
     = Inr (''Traceback:'', ''Traceback:'' @ [newline] @ ''  File main.py'')"
    by (simp add: newline_def)

  have j1: "isJsonMessage ?j" by code_simp
  have mj: "Message ?j = json_text" by simp
  have "case flat_unmarshal json_text of
      Failed stored \<Rightarrow> False
    | Decoded obj \<Rightarrow> obj ''Message'' = Some (JString ''payment failed'')
        \<and> obj ''FullMessage'' = Some (JString ''payment failed: card declined'')"
    by code_simp
  then obtain obj where j2: "flat_unmarshal (Message ?j) = Decoded obj"
    and j3: "obj ''Message'' = Some (JString ''payment failed'')"
    and j4: "obj ''FullMessage'' = Some (JString ''payment failed: card declined'')"
    unfolding mj by (cases "flat_unmarshal json_text") simp_all
  have "\<exists>e' g. toGelf flat_unmarshal ?j = Inr (e', g)
      \<and> Short g = ''payment failed'' \<and> Full g = ''payment failed: card declined''"
    by (rule toGelf_line_break [where un = flat_unmarshal and e = ?j, THEN conjunct2, THEN mp,
          OF j1, unfolded j2 decoded.case j3 j4 string_member.simps sum.case])
  then obtain e2 where "\<exists>g. toGelf flat_unmarshal ?j = Inr (e2, g)
      \<and> Short g = ''payment failed'' \<and> Full g = ''payment failed: card declined''" ..
  then obtain g2 where "toGelf flat_unmarshal ?j = Inr (e2, g2)
      \<and> Short g2 = ''payment failed'' \<and> Full g2 = ''payment failed: card declined''" ..
  then have c2: "map_sum id (\<lambda>r. (Short (snd r), Full (snd r))) (toGelf flat_unmarshal ?j)
     = Inr (''payment failed'', ''payment failed: card declined'')"
    by simp

  have u1: "isJsonMessage ?u" by code_simp
  have mu: "Message ?u = undecodable_text" by simp
  have "case flat_unmarshal undecodable_text of Failed stored \<Rightarrow> True | Decoded obj \<Rightarrow> False"
    by code_simp
  then obtain stored where u2: "flat_unmarshal (Message ?u) = Failed stored"
    unfolding mu by (cases "flat_unmarshal undecodable_text") simp_all
  have "\<exists>g. toGelf flat_unmarshal ?u = Inr (?u, g) \<and> Short g = Message ?u \<and> Full g = FullMessage ?u"
    by (rule toGelf_line_break [where un = flat_unmarshal and e = ?u, THEN conjunct2, THEN mp,
          OF u1, unfolded u2 decoded.case])
  then obtain g3 where "toGelf flat_unmarshal ?u = Inr (?u, g3) \<and> Short g3 = Message ?u
      \<and> Full g3 = FullMessage ?u" ..
  then have c3: "map_sum id (\<lambda>r. (Short (snd r), Full (snd r))) (toGelf flat_unmarshal ?u)
     = Inr (undecodable_text, ''kept'')"
    by simp

  have n1: "isJsonMessage ?n" by code_simp
  have mn: "Message ?n = inner_text" by simp
  have "case flat_unmarshal inner_text of
      Failed stored \<Rightarrow> False
    | Decoded obj \<Rightarrow> obj ''Message'' = Some JNull"
    by code_simp
  then obtain obj' where n2: "flat_unmarshal (Message ?n) = Decoded obj'"
    and n3: "obj' ''Message'' = Some JNull"
    unfolding mn by (cases "flat_unmarshal inner_text") simp_all
  have c4: "toGelf flat_unmarshal ?n = Inl TypeAssertion"
    by (rule toGelf_line_break [where un = flat_unmarshal and e = ?n, THEN conjunct2, THEN mp,
          OF n1, unfolded n2 decoded.case n3 string_member.simps sum.case])
  from h1 h2' c1 j1 c2 u1 c3 n1 c4 show ?thesis by (intro conjI)
qed

text \<open>
  Claim C6 as it is stated fails in its second part: a JSON-shaped message whose
  member \<^verbatim>\<open>Message\<close> holds an escaped line break gives a short message with the
  line break in it.
\<close>

theorem toGelf_short_with_line_break:
  "isJsonMessage (zero_entry\<lparr>Message := two_line_json_text\<rparr>)
   \<and> map_sum id (\<lambda>r. (Short (snd r), newline \<in> set (Short (snd r))))
       (toGelf flat_unmarshal (zero_entry\<lparr>Message := two_line_json_text\<rparr>))
     = Inr (''line one'' @ [newline] @ ''line two'', True)"
  by code_simp

section \<open>Properties of delivery\<close>



lemma writes_append: "writes (xs @ ys) = writes xs + writes ys"
  by (simp add: writes_def)

lemma retry_events_Suc:
  "retry_events g err (Suc n) =
     [WriteMessage g False, Stderr (''Processing paused because of: '' @ err 0), Sleep SLEEP_AFTER_ERROR]
     @ retry_events g (\<lambda>k. err (Suc k)) n"
  unfolding retry_events_def by (simp add: map_upt_Suc del: upt_Suc)

lemma send_stable:
  assumes "toGelf un e1 = Inr (e1, g)"
    and "\<And>k. k < n \<Longrightarrow> tr (writes trace + k) = Some (err k)"
    and "tr (writes trace + n) = None"
  shows "send un tr e1 trace = Some (Inr (e1, trace @ retry_events g err n))"
  using assms(2,3)
proof (induction n arbitrary: trace err)
  case 0
  then show ?case using assms(1)
    by (subst send.simps) (simp add: retry_events_def)
next
  case (Suc n)
  let ?evs = "[WriteMessage g False, Stderr (''Processing paused because of: '' @ err 0),
               Sleep SLEEP_AFTER_ERROR]"
  have w: "writes (trace @ ?evs) = Suc (writes trace)"
    by (simp add: writes_def)
  have first: "tr (writes trace) = Some (err 0)" using Suc.prems(1) [of 0] by simp
  have "send un tr e1 (trace @ ?evs) = Some (Inr (e1, (trace @ ?evs) @ retry_events g (\<lambda>k. err (Suc k)) n))"
  proof (rule Suc.IH)
    fix k assume "k < n"
    then have "tr (writes trace + Suc k) = Some (err (Suc k))"
      using Suc.prems(1) [of "Suc k"] by simp
    moreover have "writes (trace @ ?evs) + k = writes trace + Suc k"
      unfolding w by simp
    ultimately show "tr (writes (trace @ ?evs) + k) = Some (err (Suc k))"
      by (simp only:)
  next
    have "writes (trace @ ?evs) + n = writes trace + Suc n"
      unfolding w by simp
    with Suc.prems(2) show "tr (writes (trace @ ?evs) + n) = None"
      by (simp only:)
  qed
  then show ?case using assms(1) first
    by (subst send.simps) (simp add: retry_events_Suc)
qed

lemma toGelf_plain:
  assumes "\<not> isJsonMessage e" "newline \<notin> set (Message e)"
  shows "toGelf un e = Inr (e, envelope e (if Syslog_identifier e = [] then Comm e else Syslog_identifier e) (fixed_extra e))"
  using assms by (simp add: toGelf_def Let_def)

lemma toGelf_stable:
  assumes "\<not> isJsonMessage e" "toGelf un e = Inr (e1, g)"
  shows "toGelf un e1 = Inr (e1, g)"
proof (cases "newline \<in> set (Message e)")
  case False
  with assms have "e1 = e" by (simp add: toGelf_def Let_def)
  with assms(2) show ?thesis by simp
next
  case True
  let ?m = "takeWhile (\<lambda>c. c \<noteq> newline) (Message e)"
  from True assms have e1: "e1 = e\<lparr>FullMessage := Message e, Message := ?m\<rparr>"
    and g: "g = envelope e1 (if Syslog_identifier e = [] then Comm e else Syslog_identifier e) (fixed_extra e)"
    by (auto simp: toGelf_def Let_def Split_hd)
  have nj: "\<not> isJsonMessage e1" unfolding e1 using assms(1) by (rule isJsonMessage_takeWhile)
  have nn: "newline \<notin> set (Message e1)" unfolding e1 by (auto dest: set_takeWhileD)
  have "fixed_extra e1 = fixed_extra e" by (simp add: e1 fixed_extra_def)
  moreover have "Syslog_identifier e1 = Syslog_identifier e" "Comm e1 = Comm e" by (simp_all add: e1)
  ultimately show ?thesis using toGelf_plain [OF nj nn, of un] g by simp
qed

text \<open>
  Delivery with retries. Let the conversion of the entry be stable: it gives the
  envelope \<open>g\<close> and the entry \<open>e1\<close>, and gives them again on \<open>e1\<close> (so it is for every
  entry whose message is not JSON-shaped). If the next \<open>n\<close> calls of the transport
  fail and the one after them succeeds, \<^verbatim>\<open>send\<close> returns, and what it adds to the trace
  is \<open>n\<close> rounds of a failed call, a line on the error stream and a sleep, then one
  call that succeeds: one envelope delivered, \<open>n\<close> sleeps, \<open>n\<close> reports.
\<close>

theorem send_retry:
  assumes "toGelf un e = Inr (e1, g)"
    and "toGelf un e1 = Inr (e1, g)"
    and "\<forall>k<n. tr (writes trace + k) = Some (err k)"
    and "tr (writes trace + n) = None"
  shows "send un tr e trace = Some (Inr (e1, trace @ retry_events g err n))
    \<and> delivered (retry_events g err n) = [g]
    \<and> length (filter is_write (retry_events g err n)) = Suc n
    \<and> length (filter is_sleep (retry_events g err n)) = n
    \<and> length (filter is_stderr (retry_events g err n)) = n"
proof -
  have counts: "delivered (retry_events g err n) = [g]
    \<and> length (filter is_write (retry_events g err n)) = Suc n
    \<and> length (filter is_sleep (retry_events g err n)) = n
    \<and> length (filter is_stderr (retry_events g err n)) = n" for err
  proof (induction n arbitrary: err)
    case 0
    show ?case by (simp add: retry_events_def)
  next
    case (Suc n)
    from Suc [of "\<lambda>k. err (Suc k)"] show ?case by (simp add: retry_events_Suc)
  qed
  have run: "send un tr e trace = Some (Inr (e1, trace @ retry_events g err n))"
  proof (cases n)
    case 0
    with assms(1,4) show ?thesis
      by (subst send.simps) (simp add: retry_events_def)
  next
    case (Suc m)
    let ?evs = "[WriteMessage g False, Stderr (''Processing paused because of: '' @ err 0),
                 Sleep SLEEP_AFTER_ERROR]"
    have w: "writes (trace @ ?evs) = Suc (writes trace)"
      by (simp add: writes_def)
    have first: "tr (writes trace) = Some (err 0)" using assms(3) Suc by force
    have "send un tr e1 (trace @ ?evs)
        = Some (Inr (e1, (trace @ ?evs) @ retry_events g (\<lambda>k. err (Suc k)) m))"
    proof (rule send_stable [OF assms(2)])
      fix k assume "k < m"
      then have "Suc k < n" using Suc by simp
      then have "tr (writes trace + Suc k) = Some (err (Suc k))"
        using assms(3) by blast
      moreover have "writes (trace @ ?evs) + k = writes trace + Suc k"
        unfolding w by simp
      ultimately show "tr (writes (trace @ ?evs) + k) = Some (err (Suc k))"
        by (simp only:)
    next
      have "writes (trace @ ?evs) + m = writes trace + n"
        unfolding w Suc by simp
      with assms(4) show "tr (writes (trace @ ?evs) + m) = None"
        by (simp only:)
    qed
    then show ?thesis using assms(1) first
      by (subst send.simps) (simp add: retry_events_Suc Suc)
  qed
  from run counts show ?thesis by (rule conjI)
qed

text \<open>
  The retry theorem at a message of two lines and a transport that fails twice.
\<close>

theorem send_retry_witness:
  "map_option (map_sum id (\<lambda>r. (map label (snd r), map Short (delivered (snd r)))))
     (send flat_unmarshal (fails_first 2)
        (zero_entry\<lparr>Message := ''Traceback:'' @ [newline] @ ''  File main.py''\<rparr>) [])
   = Some (Inr ([''WriteMessage error'', ''Stderr'', ''Sleep'', ''WriteMessage error'', ''Stderr'',
                 ''Sleep'', ''WriteMessage ok''], [''Traceback:'']))"
proof -
  let ?e = "zero_entry\<lparr>Message := ''Traceback:'' @ [newline] @ ''  File main.py''\<rparr>"
  have nj: "\<not> isJsonMessage ?e" by code_simp
  obtain e1 g where c: "toGelf flat_unmarshal ?e = Inr (e1, g)"
    using toGelf_returns [OF nj, of flat_unmarshal] by auto
  have sh: "Short g = ''Traceback:''"
    using c nj by (auto simp: toGelf_def Let_def envelope_def newline_def split: if_splits)
  have st: "toGelf flat_unmarshal e1 = Inr (e1, g)" using nj c by (rule toGelf_stable)
  have f: "\<forall>k<2. fails_first 2 (writes [] + k) = Some ((\<lambda>k. ''connection refused'') k)"
    by (simp add: fails_first_def writes_def)
  have s: "fails_first 2 (writes [] + 2) = None" by (simp add: fails_first_def writes_def)
  from send_retry [OF c st f s]
  have "send flat_unmarshal (fails_first 2) ?e [] = Some (Inr (e1, [] @ retry_events g (\<lambda>k. ''connection refused'') 2))"
    by (rule conjunct1)
  then show ?thesis using sh
    by (simp add: retry_events_def numeral_2_eq_2)
qed

text \<open>
  Claim C7. An entry whose message is a JSON object with the string member
  \<^verbatim>\<open>Message\<close>, that string being JSON again with \<^verbatim>\<open>Message\<close> null: the first
  conversion succeeds and leaves the inner text as the message of the entry. With a
  transport that fails once and then takes everything, the retry converts the rewritten
  entry and panics in the type assertion, so no envelope is delivered. Sent directly,
  the inner text panics before the transport is called at all.
\<close>

theorem send_retry_panics:
  "map_sum id (\<lambda>r. (Message (fst r), Short (snd r)))
     (toGelf flat_unmarshal (zero_entry\<lparr>Message := nested_text\<rparr>))
     = Inr (inner_text, inner_text)
   \<and> send flat_unmarshal (fails_first 1) (zero_entry\<lparr>Message := nested_text\<rparr>) []
     = Some (Inl TypeAssertion)
   \<and> send flat_unmarshal always_ok (zero_entry\<lparr>Message := inner_text\<rparr>) []
     = Some (Inl TypeAssertion)"
proof (intro conjI)
  let ?outer = "zero_entry\<lparr>Message := nested_text\<rparr>"
  let ?inner = "zero_entry\<lparr>Message := inner_text\<rparr>"
  show "map_sum id (\<lambda>r. (Message (fst r), Short (snd r))) (toGelf flat_unmarshal ?outer)
     = Inr (inner_text, inner_text)" by code_simp
  have "map_sum id fst (toGelf flat_unmarshal ?outer) = Inr ?inner" by code_simp
  then obtain g where first: "toGelf flat_unmarshal ?outer = Inr (?inner, g)"
    by (cases "toGelf flat_unmarshal ?outer") auto
  have "map_sum id (\<lambda>r. ()) (toGelf flat_unmarshal ?inner) = Inl TypeAssertion" by code_simp
  then have second: "toGelf flat_unmarshal ?inner = Inl TypeAssertion"
    by (cases "toGelf flat_unmarshal ?inner") auto
  show "send flat_unmarshal always_ok ?inner [] = Some (Inl TypeAssertion)"
    by (subst send.simps) (simp add: second)
  have retry: "send flat_unmarshal (fails_first 1) ?inner
      [WriteMessage g False, Stderr (''Processing paused because of: '' @ ''connection refused''),
       Sleep SLEEP_AFTER_ERROR] = Some (Inl TypeAssertion)"
    by (subst send.simps) (simp add: second)
  show "send flat_unmarshal (fails_first 1) ?outer [] = Some (Inl TypeAssertion)"
    using retry by (subst send.simps) (simp add: first fails_first_def writes_def)
qed

subsection \<open>The rounds of a delivery\<close>












section \<open>Properties of the pending slot\<close>












lemma flush_round_drains:
  assumes "SAMESOURCE_TIME_DIFFERENCE < int64 (now - Realtime_timestamp occupant)"
    and "flush_round un tr now (Some occupant) trace = Some (Inr r)"
  shows "fst r = None"
proof -
  from assms have "map_option (map_sum id (\<lambda>q. (None :: entry option, snd q)))
      (send un tr occupant (trace @ [Sleep WRITE_INTERVAL, Lock, Unlock])) = Some (Inr r)"
    by (simp add: flush_round_def)
  then obtain z :: "panic + entry \<times> event list"
    where "map_sum id (\<lambda>q. (None :: entry option, snd q)) z = Inr r" by auto
  then show ?thesis by (cases z) auto
qed

lemma ingest_skips: "ingest un tr (replicate n None) slot trace = Some (Inr (slot, trace))"
  by (induction n) simp_all

text \<open>
  Claim C9. When the source ends and no line has parsed (no line at all, or none that
  parses), the slot is still nil and the final flush stops the program with a nil
  dereference; so it does on every nil slot, such as the one a round of the idle-flush
  task leaves behind.
\<close>

theorem main_task_no_entry:
  "main_task un tr (replicate n None) = Some (Inl NilDereference)
   \<and> final_flush un tr None trace = Some (Inl NilDereference)"
  by (simp add: main_task_def ingest_skips final_flush_def)




text \<open>
  One step of the producer. On the empty slot the new entry, normalized, is placed and
  the transport is not called. On an occupied slot, when the conversion of the occupant
  succeeds and the transport takes the envelope, the occupant is delivered first and
  the new entry, normalized, holds the slot afterward.
\<close>

theorem ingest_places_and_evicts:
  assumes "toGelf un a = Inr (a1, g)"
    and "tr (writes trace) = None"
  shows "ingest un tr [Some b] None trace
      = Some (Inr (Some (process b), trace @ [Lock, Unlock, Sleep 1]))
    \<and> ingest un tr [Some b] (Some a) trace
      = Some (Inr (Some (process b), trace @ [Lock, WriteMessage g True, Unlock, Sleep 1]))"
proof -
  have w: "writes (trace @ [Lock]) = writes trace" by (simp add: writes_def)
  have "send un tr a (trace @ [Lock]) = Some (Inr (a1, (trace @ [Lock]) @ [WriteMessage g True]))"
    using assms by (subst send.simps) (simp add: w)
  then show ?thesis by (simp add: Let_def)
qed

text \<open>
  The step of the producer at two plain entries.
\<close>

theorem ingest_places_and_evicts_witness:
  "map_option (map_sum id (\<lambda>r. (map_option Message (fst r), map label (snd r), map Short (delivered (snd r)))))
     (ingest flat_unmarshal always_ok [Some (zero_entry\<lparr>Message := ''second''\<rparr>)]
        (Some (zero_entry\<lparr>Message := ''first''\<rparr>)) [])
   = Some (Inr (Some ''second'', [''Lock'', ''WriteMessage ok'', ''Unlock'', ''Sleep''], [''first'']))"
proof -
  let ?a = "zero_entry\<lparr>Message := ''first''\<rparr>"
  let ?b = "zero_entry\<lparr>Message := ''second''\<rparr>"
  let ?g = "envelope ?a (if Syslog_identifier ?a = [] then Comm ?a else Syslog_identifier ?a)
       (fixed_extra ?a)"
  have nj: "\<not> isJsonMessage ?a" by code_simp
  have nn: "newline \<notin> set (Message ?a)" by (simp add: newline_def)
  have c: "toGelf flat_unmarshal ?a = Inr (?a, ?g)" using nj nn by (rule toGelf_plain)
  have ok: "always_ok (writes []) = None" by (simp add: always_ok_def)
  have p: "process ?b = ?b" by code_simp
  from ingest_places_and_evicts [where un = flat_unmarshal and tr = always_ok and trace = "[]"
      and b = ?b, OF c ok]
  have "ingest flat_unmarshal always_ok [Some ?b] (Some ?a) []
      = Some (Inr (Some (process ?b), [] @ [Lock, WriteMessage ?g True, Unlock, Sleep 1]))"
    by (rule conjunct2)
  then show ?thesis by (simp add: p envelope_def)
qed

end
